theory Spec2Isabelle
  imports Main "HOL-Library.Word"
begin

unbundle bit_operations_syntax

text \<open>
  The streaming digests of Go's \<^verbatim>\<open>crypto/md5\<close> and \<^verbatim>\<open>crypto/sha256\<close>
  (md5.go, sha256.go): the instance with its block buffer, \<^verbatim>\<open>Write\<close>, \<^verbatim>\<open>Sum\<close>
  with its padding, and \<^verbatim>\<open>MarshalBinary\<close> / \<^verbatim>\<open>UnmarshalBinary\<close>. Methods with a
  pointer receiver return the instance after the call; panics are values; the compression
  function is a parameter of every definition that calls \<^verbatim>\<open>block\<close>.
\<close>

section \<open>Go values: bytes, panics, errors, slices\<close>

type_synonym byte = "8 word"
type_synonym uint32 = "32 word"
type_synonym uint64 = "64 word"

text \<open>
  A run-time panic (an out-of-range slice expression, or an explicit \<^verbatim>\<open>panic(msg)\<close>)
  is the left summand of every fallible function's result. An \<^verbatim>\<open>error\<close> value made by
  \<^verbatim>\<open>errors.New(msg)\<close> is an ordinary return value; \<^verbatim>\<open>nil\<close> is \<open>None\<close>.
\<close>

datatype go_panic = Panic string

datatype go_error = Error string

definition bindP :: "go_panic + 'a \<Rightarrow> ('a \<Rightarrow> go_panic + 'b) \<Rightarrow> go_panic + 'b" where
  "bindP m k = (case m of Inl e \<Rightarrow> Inl e | Inr v \<Rightarrow> k v)"

definition slice_panic :: go_panic where
  "slice_panic = Panic ''runtime error: slice bounds out of range''"

text \<open>
  A byte slice whose capacity equals its length is a list. The slice expressions
  \<^verbatim>\<open>b[i:]\<close> and \<^verbatim>\<open>b[:i]\<close> panic outside \<open>0 \<le> i \<le> len(b)\<close>.
\<close>

definition slice_from :: "byte list \<Rightarrow> int \<Rightarrow> go_panic + byte list" where
  "slice_from b i =
     (if 0 \<le> i \<and> i \<le> int (length b) then Inr (drop (nat i) b) else Inl slice_panic)"

definition slice_to :: "byte list \<Rightarrow> int \<Rightarrow> go_panic + byte list" where
  "slice_to b i =
     (if 0 \<le> i \<and> i \<le> int (length b) then Inr (take (nat i) b) else Inl slice_panic)"

text \<open>
  The builtin \<^verbatim>\<open>copy(dst, src)\<close> overwrites the first \<open>min(len(dst), len(src))\<close>
  bytes of \<open>dst\<close> and returns that count. The model returns the new \<open>dst\<close> with it.
\<close>

definition go_copy :: "byte list \<Rightarrow> byte list \<Rightarrow> byte list \<times> nat" where
  "go_copy dst src =
     (let n = min (length dst) (length src) in (take n src @ drop n dst, n))"

text \<open>
  \<^verbatim>\<open>MarshalBinary\<close> relies on the capacity of its slice: it extends the slice over
  bytes of the backing array that \<^verbatim>\<open>make\<close> zeroed. There a slice is its backing
  array from the slice's start up to its capacity, and its length.
\<close>

datatype cslice = CSlice (backing: "byte list") (slen: nat)

definition go_make :: "nat \<Rightarrow> nat \<Rightarrow> cslice" where
  "go_make n c = CSlice (replicate c 0) n"

definition cslice_bytes :: "cslice \<Rightarrow> byte list" where
  "cslice_bytes b = take (slen b) (backing b)"

text \<open>
  \<^verbatim>\<open>append(b, ys...)\<close> writes in place when the capacity suffices; otherwise it
  moves the bytes to a new array (whose capacity the language leaves open: the model
  takes the exact size).
\<close>

definition go_append :: "cslice \<Rightarrow> byte list \<Rightarrow> cslice" where
  "go_append b ys =
     (let n = slen b; a = backing b in
      if n + length ys \<le> length a
      then CSlice (take n a @ ys @ drop (n + length ys) a) (n + length ys)
      else CSlice (take n a @ ys) (n + length ys))"

text \<open>\<^verbatim>\<open>b[:m]\<close> on a slice with capacity: legal for \<open>0 \<le> m \<le> cap(b)\<close>.\<close>

definition cslice_to :: "cslice \<Rightarrow> int \<Rightarrow> go_panic + cslice" where
  "cslice_to b m =
     (if 0 \<le> m \<and> m \<le> int (length (backing b)) then Inr (CSlice (backing b) (nat m))
      else Inl slice_panic)"

section \<open>Package encoding/binary\<close>

text \<open>
  Modelled from the spec: package \<^verbatim>\<open>encoding/binary\<close> is not among the source
  files. The spec says that state words and the byte count are serialized
  ``big-endian'', that MD5 writes its length field and digest words ``little-endian''
  and SHA-224/256 ``big-endian''. \<open>PutUintNN dst v\<close> stores the \<open>NN/8\<close> bytes of
  \<open>v\<close> at the start of \<open>dst\<close> and panics when \<open>dst\<close> is shorter; \<open>UintNN b\<close>
  reads them back.
\<close>

definition be_bytes32 :: "uint32 \<Rightarrow> byte list" where
  "be_bytes32 v = [ucast (drop_bit 24 v), ucast (drop_bit 16 v), ucast (drop_bit 8 v), ucast v]"

definition be_bytes64 :: "uint64 \<Rightarrow> byte list" where
  "be_bytes64 v =
     [ucast (drop_bit 56 v), ucast (drop_bit 48 v), ucast (drop_bit 40 v), ucast (drop_bit 32 v),
      ucast (drop_bit 24 v), ucast (drop_bit 16 v), ucast (drop_bit 8 v), ucast v]"

definition le_bytes32 :: "uint32 \<Rightarrow> byte list" where
  "le_bytes32 v = [ucast v, ucast (drop_bit 8 v), ucast (drop_bit 16 v), ucast (drop_bit 24 v)]"

definition le_bytes64 :: "uint64 \<Rightarrow> byte list" where
  "le_bytes64 v =
     [ucast v, ucast (drop_bit 8 v), ucast (drop_bit 16 v), ucast (drop_bit 24 v),
      ucast (drop_bit 32 v), ucast (drop_bit 40 v), ucast (drop_bit 48 v), ucast (drop_bit 56 v)]"

definition put_bytes :: "byte list \<Rightarrow> byte list \<Rightarrow> go_panic + byte list" where
  "put_bytes dst bs =
     (if length dst < length bs then Inl (Panic ''runtime error: index out of range'')
      else Inr (bs @ drop (length bs) dst))"

definition BigEndian_PutUint32 :: "byte list \<Rightarrow> uint32 \<Rightarrow> go_panic + byte list" where
  "BigEndian_PutUint32 dst v = put_bytes dst (be_bytes32 v)"

definition BigEndian_PutUint64 :: "byte list \<Rightarrow> uint64 \<Rightarrow> go_panic + byte list" where
  "BigEndian_PutUint64 dst v = put_bytes dst (be_bytes64 v)"

definition LittleEndian_PutUint32 :: "byte list \<Rightarrow> uint32 \<Rightarrow> go_panic + byte list" where
  "LittleEndian_PutUint32 dst v = put_bytes dst (le_bytes32 v)"

definition LittleEndian_PutUint64 :: "byte list \<Rightarrow> uint64 \<Rightarrow> go_panic + byte list" where
  "LittleEndian_PutUint64 dst v = put_bytes dst (le_bytes64 v)"

definition be_word32 :: "byte list \<Rightarrow> uint32" where
  "be_word32 b =
     (ucast (b ! 3) OR push_bit 8 (ucast (b ! 2)) OR push_bit 16 (ucast (b ! 1))
      OR push_bit 24 (ucast (b ! 0)))"

definition be_word64 :: "byte list \<Rightarrow> uint64" where
  "be_word64 b =
     (ucast (b ! 7) OR push_bit 8 (ucast (b ! 6)) OR push_bit 16 (ucast (b ! 5))
      OR push_bit 24 (ucast (b ! 4)) OR push_bit 32 (ucast (b ! 3))
      OR push_bit 40 (ucast (b ! 2)) OR push_bit 48 (ucast (b ! 1))
      OR push_bit 56 (ucast (b ! 0)))"

definition BigEndian_Uint32 :: "byte list \<Rightarrow> go_panic + uint32" where
  "BigEndian_Uint32 b =
     (if length b < 4 then Inl (Panic ''runtime error: index out of range'')
      else Inr (be_word32 b))"

definition BigEndian_Uint64 :: "byte list \<Rightarrow> go_panic + uint64" where
  "BigEndian_Uint64 b =
     (if length b < 8 then Inl (Panic ''runtime error: index out of range'')
      else Inr (be_word64 b))"

text \<open>
  What a field of bytes denotes as a number, independently of the encoders above:
  the first byte is the least significant one for \<open>le_value\<close>, the most significant
  one for \<open>be_value\<close>.
\<close>

fun le_value :: "byte list \<Rightarrow> nat" where
  "le_value [] = 0"
| "le_value (b # bs) = unat b + 256 * le_value bs"

definition be_value :: "byte list \<Rightarrow> nat" where
  "be_value bs = le_value (rev bs)"

section \<open>The block function\<close>

text \<open>
  Modelled from the spec: \<^verbatim>\<open>block\<close> and \<^verbatim>\<open>blockGeneric\<close> (md5block.go,
  sha256block.go and their assembly variants) are not among the source files. The spec
  describes the compression function as a ``pure function: (state vector, 64-byte
  block) -> new state vector'', with the accelerated variant ``behavior-identical'', and
  the caller as compressing ``each block'' of the bytes it passes. The compression
  function is the parameter \<open>f\<close>; \<open>block_loop\<close> applies it to each complete 64-byte
  block of \<open>p\<close> in order.
\<close>

fun block_loop :: "('h \<Rightarrow> byte list \<Rightarrow> 'h) \<Rightarrow> 'h \<Rightarrow> byte list \<Rightarrow> 'h" where
  "block_loop f h p = (if length p < 64 then h else block_loop f (f h (take 64 p)) (drop 64 p))"

declare block_loop.simps [simp del]

section \<open>Package crypto/md5\<close>

definition md5_Size :: int where "md5_Size = 16"

definition md5_BlockSize :: int where "md5_BlockSize = 64"

definition md5_init0 :: uint32 where "md5_init0 = 0x67452301"
definition md5_init1 :: uint32 where "md5_init1 = 0xEFCDAB89"
definition md5_init2 :: uint32 where "md5_init2 = 0x98BADCFE"
definition md5_init3 :: uint32 where "md5_init3 = 0x10325476"

text \<open>
  \<^verbatim>\<open>type digest struct { s [4]uint32; x [BlockSize]byte; nx int; len uint64 }\<close>.
  The four state words are a tuple; the array \<open>x\<close> is a list, whose length 64 the Go
  type fixes and the model carries as a hypothesis.
\<close>

type_synonym md5_state = "uint32 \<times> uint32 \<times> uint32 \<times> uint32"

record md5_digest =
  md5_s :: md5_state
  md5_x :: "byte list"
  md5_nx :: int
  md5_len :: uint64

definition md5_Reset :: "md5_digest \<Rightarrow> md5_digest" where
  "md5_Reset d = d\<lparr>md5_s := (md5_init0, md5_init1, md5_init2, md5_init3), md5_nx := 0, md5_len := 0\<rparr>"

text \<open>The bytes of the string constant \<^verbatim>\<open>"md5\x01"\<close>.\<close>

definition md5_magic :: "byte list" where
  "md5_magic = [0x6D, 0x64, 0x35, 0x01]"

definition md5_marshaledSize :: int where
  "md5_marshaledSize = int (length md5_magic) + 4 * 4 + md5_BlockSize + 8"

definition md5_appendUint64 :: "cslice \<Rightarrow> uint64 \<Rightarrow> go_panic + cslice" where
  "md5_appendUint64 b v =
     bindP (BigEndian_PutUint64 (replicate 8 0) v) (\<lambda>a. Inr (go_append b a))"

definition md5_appendUint32 :: "cslice \<Rightarrow> uint32 \<Rightarrow> go_panic + cslice" where
  "md5_appendUint32 b v =
     bindP (BigEndian_PutUint32 (replicate 4 0) v) (\<lambda>a. Inr (go_append b a))"

text \<open>
  \<^verbatim>\<open>return b[8:], binary.BigEndian.Uint64(b[0:8])\<close>: both slice expressions need
  eight bytes.
\<close>

definition md5_consumeUint64 :: "byte list \<Rightarrow> go_panic + (byte list \<times> uint64)" where
  "md5_consumeUint64 b =
     bindP (slice_from b 8) (\<lambda>rest.
     bindP (slice_to b 8) (\<lambda>hd8.
     bindP (BigEndian_Uint64 hd8) (\<lambda>v. Inr (rest, v))))"

definition md5_consumeUint32 :: "byte list \<Rightarrow> go_panic + (byte list \<times> uint32)" where
  "md5_consumeUint32 b =
     bindP (slice_from b 4) (\<lambda>rest.
     bindP (slice_to b 4) (\<lambda>hd4.
     bindP (BigEndian_Uint32 hd4) (\<lambda>v. Inr (rest, v))))"

text \<open>
  \<^verbatim>\<open>MarshalBinary\<close> returns \<open>([]byte, error)\<close>; the error is always \<open>nil\<close>.
  \<^verbatim>\<open>d.x[:d.nx]\<close> panics unless \<open>0 \<le> nx \<le> 64\<close>.
\<close>

definition md5_MarshalBinary :: "md5_digest \<Rightarrow> go_panic + (byte list \<times> go_error option)" where
  "md5_MarshalBinary d =
     (let b = go_make 0 (nat md5_marshaledSize);
          b = go_append b md5_magic in
      case md5_s d of (s0, s1, s2, s3) \<Rightarrow>
      bindP (md5_appendUint32 b s0) (\<lambda>b.
      bindP (md5_appendUint32 b s1) (\<lambda>b.
      bindP (md5_appendUint32 b s2) (\<lambda>b.
      bindP (md5_appendUint32 b s3) (\<lambda>b.
      bindP (slice_to (md5_x d) (md5_nx d)) (\<lambda>used.
      let b = go_append b used in
      bindP (cslice_to b (int (slen b) + int (length (md5_x d)) - md5_nx d)) (\<lambda>b.
      bindP (md5_appendUint64 b (md5_len d)) (\<lambda>b.
      Inr (cslice_bytes b, None)))))))))"

text \<open>
  \<^verbatim>\<open>UnmarshalBinary\<close> has a pointer receiver and returns an \<open>error\<close>: the model
  returns the instance after the call together with the error value. The four stores
  to \<open>d.s\<close> are written as one; \<^verbatim>\<open>d.len % BlockSize\<close> is \<open>mod 64\<close> on \<open>uint64\<close>.
\<close>

definition md5_UnmarshalBinary ::
  "md5_digest \<Rightarrow> byte list \<Rightarrow> go_panic + (md5_digest \<times> go_error option)" where
  "md5_UnmarshalBinary d b =
     bindP (if int (length b) < int (length md5_magic) then Inr True
            else bindP (slice_to b (int (length md5_magic))) (\<lambda>tag. Inr (tag \<noteq> md5_magic)))
       (\<lambda>bad_magic.
     if bad_magic then Inr (d, Some (Error ''crypto/md5: invalid hash state identifier''))
     else if int (length b) \<noteq> md5_marshaledSize
     then Inr (d, Some (Error ''crypto/md5: invalid hash state size''))
     else
       bindP (slice_from b (int (length md5_magic))) (\<lambda>b.
       bindP (md5_consumeUint32 b) (\<lambda>(b, s0).
       bindP (md5_consumeUint32 b) (\<lambda>(b, s1).
       bindP (md5_consumeUint32 b) (\<lambda>(b, s2).
       bindP (md5_consumeUint32 b) (\<lambda>(b, s3).
       let d = d\<lparr>md5_s := (s0, s1, s2, s3)\<rparr>;
           (x', n) = go_copy (md5_x d) b;
           d = d\<lparr>md5_x := x'\<rparr> in
       bindP (slice_from b (int n)) (\<lambda>b.
       bindP (md5_consumeUint64 b) (\<lambda>(b, l).
       let d = d\<lparr>md5_len := l\<rparr>;
           d = d\<lparr>md5_nx := uint (md5_len d mod 64)\<rparr> in
       Inr (d, None)))))))))"

text \<open>\<^verbatim>\<open>New\<close>: \<^verbatim>\<open>new(digest)\<close> is the zero value, then \<^verbatim>\<open>Reset\<close>.\<close>

definition md5_zero :: md5_digest where
  "md5_zero = \<lparr>md5_s = (0, 0, 0, 0), md5_x = replicate 64 0, md5_nx = 0, md5_len = 0\<rparr>"

definition md5_New :: md5_digest where
  "md5_New = md5_Reset md5_zero"

text \<open>\<^verbatim>\<open>block(d, p)\<close> updates the state words of \<open>d\<close> and nothing else.\<close>

definition md5_block :: "(md5_state \<Rightarrow> byte list \<Rightarrow> md5_state) \<Rightarrow> md5_digest \<Rightarrow> byte list \<Rightarrow> md5_digest" where
  "md5_block f d p = d\<lparr>md5_s := block_loop f (md5_s d) p\<rparr>"

text \<open>
  \<^verbatim>\<open>Write\<close> is three \<^verbatim>\<open>if\<close> statements in sequence, each reading and
  updating \<open>d\<close> and the cursor \<open>p\<close>; each is a definition here. The first:
  \<^verbatim>\<open>if d.nx > 0 { n := copy(d.x[d.nx:], p); d.nx += n; if d.nx == BlockSize { block(d, d.x[:]); d.nx = 0 }; p = p[n:] }\<close>.
\<close>

definition md5_Write_buffered ::
  "(md5_state \<Rightarrow> byte list \<Rightarrow> md5_state) \<Rightarrow> md5_digest \<Rightarrow> byte list
     \<Rightarrow> go_panic + (md5_digest \<times> byte list)" where
  "md5_Write_buffered f d p =
     (if md5_nx d > 0 then
        bindP (slice_from (md5_x d) (md5_nx d)) (\<lambda>dst.
        let (dst', n) = go_copy dst p;
            d = d\<lparr>md5_x := take (nat (md5_nx d)) (md5_x d) @ dst'\<rparr>;
            d = d\<lparr>md5_nx := md5_nx d + int n\<rparr>;
            d = (if md5_nx d = md5_BlockSize
                 then (md5_block f d (md5_x d))\<lparr>md5_nx := 0\<rparr> else d) in
        bindP (slice_from p (int n)) (\<lambda>p. Inr (d, p)))
      else Inr (d, p))"

text \<open>
  The second:
  \<^verbatim>\<open>if len(p) >= BlockSize { n := len(p) &^ (BlockSize - 1); block(d, p[:n]); p = p[n:] }\<close>,
  with \<open>&^\<close> as \<open>AND NOT\<close> on \<open>int\<close>.
\<close>

definition md5_Write_blocks ::
  "(md5_state \<Rightarrow> byte list \<Rightarrow> md5_state) \<Rightarrow> md5_digest \<Rightarrow> byte list
     \<Rightarrow> go_panic + (md5_digest \<times> byte list)" where
  "md5_Write_blocks f d p =
     (if int (length p) \<ge> md5_BlockSize then
        let n = int (length p) AND NOT (md5_BlockSize - 1) in
        bindP (slice_to p n) (\<lambda>blocks.
        let d = md5_block f d blocks in
        bindP (slice_from p n) (\<lambda>p. Inr (d, p)))
      else Inr (d, p))"

text \<open>The third: \<^verbatim>\<open>if len(p) > 0 { d.nx = copy(d.x[:], p) }\<close>.\<close>

definition md5_Write_rest :: "md5_digest \<Rightarrow> byte list \<Rightarrow> md5_digest" where
  "md5_Write_rest d p =
     (if length p > 0
      then (let (x', n) = go_copy (md5_x d) p in d\<lparr>md5_x := x', md5_nx := int n\<rparr>)
      else d)"

text \<open>
  \<^verbatim>\<open>Write\<close> returns \<open>(nn int, err error)\<close>; the model returns the instance after the
  call with them. \<open>err\<close> is never assigned.
\<close>

definition md5_Write ::
  "(md5_state \<Rightarrow> byte list \<Rightarrow> md5_state) \<Rightarrow> md5_digest \<Rightarrow> byte list
     \<Rightarrow> go_panic + (md5_digest \<times> int \<times> go_error option)" where
  "md5_Write f d p =
     (let nn = int (length p);
          d = d\<lparr>md5_len := md5_len d + of_int nn\<rparr> in
      bindP (md5_Write_buffered f d p) (\<lambda>(d, p).
      bindP (md5_Write_blocks f d p) (\<lambda>(d, p).
      let d = md5_Write_rest d p in
      Inr (d, nn, None))))"

text \<open>
  The bytes \<^verbatim>\<open>tmp[:1+pad+8]\<close> that \<^verbatim>\<open>checkSum\<close> writes, as a function of
  \<open>d.len\<close> (the first three statements of \<^verbatim>\<open>checkSum\<close> and the argument of its
  \<^verbatim>\<open>Write\<close>).
\<close>

definition md5_padding :: "uint64 \<Rightarrow> go_panic + byte list" where
  "md5_padding l =
     (let tmp = 0x80 # replicate (1 + 63 + 8 - 1) 0;
          pad = (55 - l) mod 64 in
      bindP (slice_from tmp (uint (1 + pad))) (\<lambda>dst.
      bindP (LittleEndian_PutUint64 dst (push_bit 3 l)) (\<lambda>dst'.
      let tmp = take (unat (1 + pad)) tmp @ dst' in
      slice_to tmp (uint (1 + pad + 8)))))"

text \<open>
  \<^verbatim>\<open>checkSum\<close> has a pointer receiver: the model returns the instance it leaves
  behind and the 16 digest bytes.
\<close>

definition md5_checkSum ::
  "(md5_state \<Rightarrow> byte list \<Rightarrow> md5_state) \<Rightarrow> md5_digest \<Rightarrow> go_panic + (md5_digest \<times> byte list)" where
  "md5_checkSum f d =
     bindP (md5_padding (md5_len d)) (\<lambda>padding.
     bindP (md5_Write f d padding) (\<lambda>(d, nn, err).
     if md5_nx d \<noteq> 0 then Inl (Panic ''d.nx != 0'')
     else
       case md5_s d of (s0, s1, s2, s3) \<Rightarrow>
       let digest = replicate (nat md5_Size) 0 in
       bindP (LittleEndian_PutUint32 digest s0) (\<lambda>digest.
       bindP (LittleEndian_PutUint32 (drop 4 digest) s1) (\<lambda>t. let digest = take 4 digest @ t in
       bindP (LittleEndian_PutUint32 (drop 8 digest) s2) (\<lambda>t. let digest = take 8 digest @ t in
       bindP (LittleEndian_PutUint32 (drop 12 digest) s3) (\<lambda>t. let digest = take 12 digest @ t in
       Inr (d, digest)))))))"

text \<open>
  \<^verbatim>\<open>Sum\<close>: \<^verbatim>\<open>d0 := *d\<close> copies the struct, \<^verbatim>\<open>checkSum\<close> runs on the copy. The
  model returns the receiver after the call and the returned slice.
\<close>

definition md5_Sum ::
  "(md5_state \<Rightarrow> byte list \<Rightarrow> md5_state) \<Rightarrow> md5_digest \<Rightarrow> byte list \<Rightarrow> go_panic + (md5_digest \<times> byte list)" where
  "md5_Sum f d inp =
     (let d0 = d in
      bindP (md5_checkSum f d0) (\<lambda>(d0, hash). Inr (d, inp @ hash)))"

text \<open>The package function \<^verbatim>\<open>Sum(data)\<close>.\<close>

definition md5_Sum_data ::
  "(md5_state \<Rightarrow> byte list \<Rightarrow> md5_state) \<Rightarrow> byte list \<Rightarrow> go_panic + byte list" where
  "md5_Sum_data f data =
     (let d = md5_Reset md5_zero in
      bindP (md5_Write f d data) (\<lambda>(d, nn, err).
      bindP (md5_checkSum f d) (\<lambda>(d, digest). Inr digest)))"

section \<open>Package crypto/sha256\<close>

definition sha256_Size :: int where "sha256_Size = 32"

definition sha256_Size224 :: int where "sha256_Size224 = 28"

definition sha256_BlockSize :: int where "sha256_BlockSize = 64"

definition sha256_chunk :: int where "sha256_chunk = 64"

definition sha256_init0 :: uint32 where "sha256_init0 = 0x6A09E667"
definition sha256_init1 :: uint32 where "sha256_init1 = 0xBB67AE85"
definition sha256_init2 :: uint32 where "sha256_init2 = 0x3C6EF372"
definition sha256_init3 :: uint32 where "sha256_init3 = 0xA54FF53A"
definition sha256_init4 :: uint32 where "sha256_init4 = 0x510E527F"
definition sha256_init5 :: uint32 where "sha256_init5 = 0x9B05688C"
definition sha256_init6 :: uint32 where "sha256_init6 = 0x1F83D9AB"
definition sha256_init7 :: uint32 where "sha256_init7 = 0x5BE0CD19"
definition sha256_init0_224 :: uint32 where "sha256_init0_224 = 0xC1059ED8"
definition sha256_init1_224 :: uint32 where "sha256_init1_224 = 0x367CD507"
definition sha256_init2_224 :: uint32 where "sha256_init2_224 = 0x3070DD17"
definition sha256_init3_224 :: uint32 where "sha256_init3_224 = 0xF70E5939"
definition sha256_init4_224 :: uint32 where "sha256_init4_224 = 0xFFC00B31"
definition sha256_init5_224 :: uint32 where "sha256_init5_224 = 0x68581511"
definition sha256_init6_224 :: uint32 where "sha256_init6_224 = 0x64F98FA7"
definition sha256_init7_224 :: uint32 where "sha256_init7_224 = 0xBEFA4FA4"

text \<open>
  \<^verbatim>\<open>type digest struct { h [8]uint32; x [chunk]byte; nx int; len uint64; is224 bool }\<close>.
\<close>

type_synonym sha256_state =
  "uint32 \<times> uint32 \<times> uint32 \<times> uint32 \<times> uint32 \<times> uint32 \<times> uint32 \<times> uint32"

record sha256_digest =
  sha_h :: sha256_state
  sha_x :: "byte list"
  sha_nx :: int
  sha_len :: uint64
  sha_is224 :: bool

text \<open>The bytes of \<^verbatim>\<open>"sha\x02"\<close> and \<^verbatim>\<open>"sha\x03"\<close>.\<close>

definition sha256_magic224 :: "byte list" where
  "sha256_magic224 = [0x73, 0x68, 0x61, 0x02]"

definition sha256_magic256 :: "byte list" where
  "sha256_magic256 = [0x73, 0x68, 0x61, 0x03]"

definition sha256_marshaledSize :: int where
  "sha256_marshaledSize = int (length sha256_magic256) + 8 * 4 + sha256_chunk + 8"

definition sha256_appendUint64 :: "cslice \<Rightarrow> uint64 \<Rightarrow> go_panic + cslice" where
  "sha256_appendUint64 b v =
     bindP (BigEndian_PutUint64 (replicate 8 0) v) (\<lambda>a. Inr (go_append b a))"

definition sha256_appendUint32 :: "cslice \<Rightarrow> uint32 \<Rightarrow> go_panic + cslice" where
  "sha256_appendUint32 b v =
     bindP (BigEndian_PutUint32 (replicate 4 0) v) (\<lambda>a. Inr (go_append b a))"

text \<open>
  Here the decoders are written out in the source: \<^verbatim>\<open>_ = b[7]\<close> is the bounds
  check, then the bytes are shifted and or-ed together, then \<^verbatim>\<open>b[8:]\<close>.
\<close>

definition sha256_consumeUint64 :: "byte list \<Rightarrow> go_panic + (byte list \<times> uint64)" where
  "sha256_consumeUint64 b =
     (if \<not> 7 < length b then Inl (Panic ''runtime error: index out of range'')
      else
        let v = ucast (b ! 7) OR push_bit 8 (ucast (b ! 6)) OR push_bit 16 (ucast (b ! 5))
                OR push_bit 24 (ucast (b ! 4)) OR push_bit 32 (ucast (b ! 3))
                OR push_bit 40 (ucast (b ! 2)) OR push_bit 48 (ucast (b ! 1))
                OR push_bit 56 (ucast (b ! 0)) in
        bindP (slice_from b 8) (\<lambda>rest. Inr (rest, v)))"

definition sha256_consumeUint32 :: "byte list \<Rightarrow> go_panic + (byte list \<times> uint32)" where
  "sha256_consumeUint32 b =
     (if \<not> 3 < length b then Inl (Panic ''runtime error: index out of range'')
      else
        let v = ucast (b ! 3) OR push_bit 8 (ucast (b ! 2)) OR push_bit 16 (ucast (b ! 1))
                OR push_bit 24 (ucast (b ! 0)) in
        bindP (slice_from b 4) (\<lambda>rest. Inr (rest, v)))"

definition sha256_MarshalBinary :: "sha256_digest \<Rightarrow> go_panic + (byte list \<times> go_error option)" where
  "sha256_MarshalBinary d =
     (let b = go_make 0 (nat sha256_marshaledSize);
          b = (if sha_is224 d then go_append b sha256_magic224 else go_append b sha256_magic256) in
      case sha_h d of (h0, h1, h2, h3, h4, h5, h6, h7) \<Rightarrow>
      bindP (sha256_appendUint32 b h0) (\<lambda>b.
      bindP (sha256_appendUint32 b h1) (\<lambda>b.
      bindP (sha256_appendUint32 b h2) (\<lambda>b.
      bindP (sha256_appendUint32 b h3) (\<lambda>b.
      bindP (sha256_appendUint32 b h4) (\<lambda>b.
      bindP (sha256_appendUint32 b h5) (\<lambda>b.
      bindP (sha256_appendUint32 b h6) (\<lambda>b.
      bindP (sha256_appendUint32 b h7) (\<lambda>b.
      bindP (slice_to (sha_x d) (sha_nx d)) (\<lambda>used.
      let b = go_append b used in
      bindP (cslice_to b (int (slen b) + int (length (sha_x d)) - sha_nx d)) (\<lambda>b.
      bindP (sha256_appendUint64 b (sha_len d)) (\<lambda>b.
      Inr (cslice_bytes b, None)))))))))))))"

text \<open>
  The condition of \<^verbatim>\<open>UnmarshalBinary\<close> is a short-circuit disjunction: the slice
  expressions are evaluated only when \<open>len(b) \<ge> len(magic224)\<close>. The eight stores to
  \<open>d.h\<close> are written as one.
\<close>

definition sha256_UnmarshalBinary ::
  "sha256_digest \<Rightarrow> byte list \<Rightarrow> go_panic + (sha256_digest \<times> go_error option)" where
  "sha256_UnmarshalBinary d b =
     bindP (if int (length b) < int (length sha256_magic224) then Inr True
            else bindP (if sha_is224 d
                        then bindP (slice_to b (int (length sha256_magic224)))
                               (\<lambda>tag. Inr (tag \<noteq> sha256_magic224))
                        else Inr False) (\<lambda>bad224.
                 if bad224 then Inr True
                 else if \<not> sha_is224 d
                      then bindP (slice_to b (int (length sha256_magic256)))
                             (\<lambda>tag. Inr (tag \<noteq> sha256_magic256))
                      else Inr False))
       (\<lambda>bad_magic.
     if bad_magic then Inr (d, Some (Error ''crypto/sha256: invalid hash state identifier''))
     else if int (length b) \<noteq> sha256_marshaledSize
     then Inr (d, Some (Error ''crypto/sha256: invalid hash state size''))
     else
       bindP (slice_from b (int (length sha256_magic224))) (\<lambda>b.
       bindP (sha256_consumeUint32 b) (\<lambda>(b, h0).
       bindP (sha256_consumeUint32 b) (\<lambda>(b, h1).
       bindP (sha256_consumeUint32 b) (\<lambda>(b, h2).
       bindP (sha256_consumeUint32 b) (\<lambda>(b, h3).
       bindP (sha256_consumeUint32 b) (\<lambda>(b, h4).
       bindP (sha256_consumeUint32 b) (\<lambda>(b, h5).
       bindP (sha256_consumeUint32 b) (\<lambda>(b, h6).
       bindP (sha256_consumeUint32 b) (\<lambda>(b, h7).
       let d = d\<lparr>sha_h := (h0, h1, h2, h3, h4, h5, h6, h7)\<rparr>;
           (x', n) = go_copy (sha_x d) b;
           d = d\<lparr>sha_x := x'\<rparr> in
       bindP (slice_from b (int n)) (\<lambda>b.
       bindP (sha256_consumeUint64 b) (\<lambda>(b, l).
       let d = d\<lparr>sha_len := l\<rparr>;
           d = d\<lparr>sha_nx := uint (sha_len d mod 64)\<rparr> in
       Inr (d, None)))))))))))))"

definition sha256_Reset :: "sha256_digest \<Rightarrow> sha256_digest" where
  "sha256_Reset d =
     (let d = (if \<not> sha_is224 d
               then d\<lparr>sha_h := (sha256_init0, sha256_init1, sha256_init2, sha256_init3,
                                sha256_init4, sha256_init5, sha256_init6, sha256_init7)\<rparr>
               else d\<lparr>sha_h := (sha256_init0_224, sha256_init1_224, sha256_init2_224,
                                sha256_init3_224, sha256_init4_224, sha256_init5_224,
                                sha256_init6_224, sha256_init7_224)\<rparr>) in
      d\<lparr>sha_nx := 0, sha_len := 0\<rparr>)"

definition sha256_zero :: sha256_digest where
  "sha256_zero = \<lparr>sha_h = (0, 0, 0, 0, 0, 0, 0, 0), sha_x = replicate 64 0, sha_nx = 0,
                  sha_len = 0, sha_is224 = False\<rparr>"

definition sha256_New :: sha256_digest where
  "sha256_New = sha256_Reset sha256_zero"

definition sha256_New224 :: sha256_digest where
  "sha256_New224 = sha256_Reset (sha256_zero\<lparr>sha_is224 := True\<rparr>)"

definition sha256_digest_Size :: "sha256_digest \<Rightarrow> int" where
  "sha256_digest_Size d = (if \<not> sha_is224 d then sha256_Size else sha256_Size224)"

definition sha256_block ::
  "(sha256_state \<Rightarrow> byte list \<Rightarrow> sha256_state) \<Rightarrow> sha256_digest \<Rightarrow> byte list \<Rightarrow> sha256_digest" where
  "sha256_block f d p = d\<lparr>sha_h := block_loop f (sha_h d) p\<rparr>"

text \<open>The three \<^verbatim>\<open>if\<close> statements of \<^verbatim>\<open>Write\<close>, as for MD5.\<close>

definition sha256_Write_buffered ::
  "(sha256_state \<Rightarrow> byte list \<Rightarrow> sha256_state) \<Rightarrow> sha256_digest \<Rightarrow> byte list
     \<Rightarrow> go_panic + (sha256_digest \<times> byte list)" where
  "sha256_Write_buffered f d p =
     (if sha_nx d > 0 then
        bindP (slice_from (sha_x d) (sha_nx d)) (\<lambda>dst.
        let (dst', n) = go_copy dst p;
            d = d\<lparr>sha_x := take (nat (sha_nx d)) (sha_x d) @ dst'\<rparr>;
            d = d\<lparr>sha_nx := sha_nx d + int n\<rparr>;
            d = (if sha_nx d = sha256_chunk
                 then (sha256_block f d (sha_x d))\<lparr>sha_nx := 0\<rparr> else d) in
        bindP (slice_from p (int n)) (\<lambda>p. Inr (d, p)))
      else Inr (d, p))"

definition sha256_Write_blocks ::
  "(sha256_state \<Rightarrow> byte list \<Rightarrow> sha256_state) \<Rightarrow> sha256_digest \<Rightarrow> byte list
     \<Rightarrow> go_panic + (sha256_digest \<times> byte list)" where
  "sha256_Write_blocks f d p =
     (if int (length p) \<ge> sha256_chunk then
        let n = int (length p) AND NOT (sha256_chunk - 1) in
        bindP (slice_to p n) (\<lambda>blocks.
        let d = sha256_block f d blocks in
        bindP (slice_from p n) (\<lambda>p. Inr (d, p)))
      else Inr (d, p))"

definition sha256_Write_rest :: "sha256_digest \<Rightarrow> byte list \<Rightarrow> sha256_digest" where
  "sha256_Write_rest d p =
     (if length p > 0
      then (let (x', n) = go_copy (sha_x d) p in d\<lparr>sha_x := x', sha_nx := int n\<rparr>)
      else d)"

definition sha256_Write ::
  "(sha256_state \<Rightarrow> byte list \<Rightarrow> sha256_state) \<Rightarrow> sha256_digest \<Rightarrow> byte list
     \<Rightarrow> go_panic + (sha256_digest \<times> int \<times> go_error option)" where
  "sha256_Write f d p =
     (let nn = int (length p);
          d = d\<lparr>sha_len := sha_len d + of_int nn\<rparr> in
      bindP (sha256_Write_buffered f d p) (\<lambda>(d, p).
      bindP (sha256_Write_blocks f d p) (\<lambda>(d, p).
      let d = sha256_Write_rest d p in
      Inr (d, nn, None))))"

text \<open>
  The arguments of the two \<^verbatim>\<open>Write\<close> calls of \<^verbatim>\<open>checkSum\<close>, as functions of
  \<open>d.len\<close>: \<^verbatim>\<open>tmp[0 : 56-len%64]\<close> or \<^verbatim>\<open>tmp[0 : 64+56-len%64]\<close> with
  \<open>tmp[0] = 0x80\<close>, and \<^verbatim>\<open>tmp[0:8]\<close> after \<^verbatim>\<open>PutUint64(tmp[:], len << 3)\<close>.
\<close>

definition sha256_padding1 :: "uint64 \<Rightarrow> go_panic + byte list" where
  "sha256_padding1 l =
     (let tmp = replicate 64 0;
          tmp = tmp[0 := 0x80] in
      if l mod 64 < 56 then slice_to tmp (uint (56 - l mod 64))
      else slice_to tmp (uint (64 + 56 - l mod 64)))"

definition sha256_padding2 :: "uint64 \<Rightarrow> go_panic + byte list" where
  "sha256_padding2 l =
     (let tmp = replicate 64 0;
          tmp = tmp[0 := 0x80];
          l = push_bit 3 l in
      bindP (BigEndian_PutUint64 tmp l) (\<lambda>tmp. slice_to tmp 8))"

definition sha256_checkSum ::
  "(sha256_state \<Rightarrow> byte list \<Rightarrow> sha256_state) \<Rightarrow> sha256_digest
     \<Rightarrow> go_panic + (sha256_digest \<times> byte list)" where
  "sha256_checkSum f d =
     (let l = sha_len d in
      bindP (sha256_padding1 l) (\<lambda>p1.
      bindP (sha256_Write f d p1) (\<lambda>(d, nn, err).
      bindP (sha256_padding2 l) (\<lambda>p2.
      bindP (sha256_Write f d p2) (\<lambda>(d, nn, err).
      if sha_nx d \<noteq> 0 then Inl (Panic ''d.nx != 0'')
      else
        case sha_h d of (h0, h1, h2, h3, h4, h5, h6, h7) \<Rightarrow>
        let digest = replicate (nat sha256_Size) 0 in
        bindP (BigEndian_PutUint32 digest h0) (\<lambda>digest.
        bindP (BigEndian_PutUint32 (drop 4 digest) h1) (\<lambda>t. let digest = take 4 digest @ t in
        bindP (BigEndian_PutUint32 (drop 8 digest) h2) (\<lambda>t. let digest = take 8 digest @ t in
        bindP (BigEndian_PutUint32 (drop 12 digest) h3) (\<lambda>t. let digest = take 12 digest @ t in
        bindP (BigEndian_PutUint32 (drop 16 digest) h4) (\<lambda>t. let digest = take 16 digest @ t in
        bindP (BigEndian_PutUint32 (drop 20 digest) h5) (\<lambda>t. let digest = take 20 digest @ t in
        bindP (BigEndian_PutUint32 (drop 24 digest) h6) (\<lambda>t. let digest = take 24 digest @ t in
        bindP (if \<not> sha_is224 d
               then bindP (BigEndian_PutUint32 (drop 28 digest) h7) (\<lambda>t. Inr (take 28 digest @ t))
               else Inr digest) (\<lambda>digest.
        Inr (d, digest))))))))))))))"

definition sha256_Sum ::
  "(sha256_state \<Rightarrow> byte list \<Rightarrow> sha256_state) \<Rightarrow> sha256_digest \<Rightarrow> byte list
     \<Rightarrow> go_panic + (sha256_digest \<times> byte list)" where
  "sha256_Sum f d inp =
     (let d0 = d in
      bindP (sha256_checkSum f d0) (\<lambda>(d0, hash).
      if sha_is224 d0 then Inr (d, inp @ take (nat sha256_Size224) hash)
      else Inr (d, inp @ hash)))"

text \<open>The package functions \<^verbatim>\<open>Sum256(data)\<close> and \<^verbatim>\<open>Sum224(data)\<close>.\<close>

definition sha256_Sum256 ::
  "(sha256_state \<Rightarrow> byte list \<Rightarrow> sha256_state) \<Rightarrow> byte list \<Rightarrow> go_panic + byte list" where
  "sha256_Sum256 f data =
     (let d = sha256_Reset sha256_zero in
      bindP (sha256_Write f d data) (\<lambda>(d, nn, err).
      bindP (sha256_checkSum f d) (\<lambda>(d, digest). Inr digest)))"

definition sha256_Sum224 ::
  "(sha256_state \<Rightarrow> byte list \<Rightarrow> sha256_state) \<Rightarrow> byte list \<Rightarrow> go_panic + byte list" where
  "sha256_Sum224 f data =
     (let d = sha256_zero\<lparr>sha_is224 := True\<rparr>;
          d = sha256_Reset d in
      bindP (sha256_Write f d data) (\<lambda>(d, nn, err).
      bindP (sha256_checkSum f d) (\<lambda>(d, sum).
      Inr (fst (go_copy (replicate (nat sha256_Size224) 0) (take (nat sha256_Size224) sum))))))"

section \<open>Callers\<close>

text \<open>
  What a caller can do with one instance: any sequence of calls of its methods. A panic
  ends the run; an error returned by \<^verbatim>\<open>UnmarshalBinary\<close> does not.
\<close>

datatype call =
  Call_Write "byte list"
  | Call_Reset
  | Call_Sum "byte list"
  | Call_MarshalBinary
  | Call_UnmarshalBinary "byte list"

fun md5_call ::
  "(md5_state \<Rightarrow> byte list \<Rightarrow> md5_state) \<Rightarrow> md5_digest \<Rightarrow> call \<Rightarrow> go_panic + md5_digest" where
  "md5_call f d (Call_Write p) = bindP (md5_Write f d p) (\<lambda>(d, nn, err). Inr d)"
| "md5_call f d Call_Reset = Inr (md5_Reset d)"
| "md5_call f d (Call_Sum inp) = bindP (md5_Sum f d inp) (\<lambda>(d, out). Inr d)"
| "md5_call f d Call_MarshalBinary = bindP (md5_MarshalBinary d) (\<lambda>(b, err). Inr d)"
| "md5_call f d (Call_UnmarshalBinary b) = bindP (md5_UnmarshalBinary d b) (\<lambda>(d, err). Inr d)"

fun md5_calls ::
  "(md5_state \<Rightarrow> byte list \<Rightarrow> md5_state) \<Rightarrow> md5_digest \<Rightarrow> call list \<Rightarrow> go_panic + md5_digest" where
  "md5_calls f d [] = Inr d"
| "md5_calls f d (c # cs) = bindP (md5_call f d c) (\<lambda>d. md5_calls f d cs)"

fun sha256_call ::
  "(sha256_state \<Rightarrow> byte list \<Rightarrow> sha256_state) \<Rightarrow> sha256_digest \<Rightarrow> call
     \<Rightarrow> go_panic + sha256_digest" where
  "sha256_call f d (Call_Write p) = bindP (sha256_Write f d p) (\<lambda>(d, nn, err). Inr d)"
| "sha256_call f d Call_Reset = Inr (sha256_Reset d)"
| "sha256_call f d (Call_Sum inp) = bindP (sha256_Sum f d inp) (\<lambda>(d, out). Inr d)"
| "sha256_call f d Call_MarshalBinary = bindP (sha256_MarshalBinary d) (\<lambda>(b, err). Inr d)"
| "sha256_call f d (Call_UnmarshalBinary b) =
     bindP (sha256_UnmarshalBinary d b) (\<lambda>(d, err). Inr d)"

fun sha256_calls ::
  "(sha256_state \<Rightarrow> byte list \<Rightarrow> sha256_state) \<Rightarrow> sha256_digest \<Rightarrow> call list
     \<Rightarrow> go_panic + sha256_digest" where
  "sha256_calls f d [] = Inr d"
| "sha256_calls f d (c # cs) = bindP (sha256_call f d c) (\<lambda>d. sha256_calls f d cs)"

text \<open>
  The digest a caller reads after a sequence of calls on a fresh instance:
  \<^verbatim>\<open>d := New(); ...; d.Sum(nil)\<close>.
\<close>

definition md5_run ::
  "(md5_state \<Rightarrow> byte list \<Rightarrow> md5_state) \<Rightarrow> call list \<Rightarrow> go_panic + byte list" where
  "md5_run f cs = bindP (md5_calls f md5_New cs) (\<lambda>d. bindP (md5_Sum f d []) (\<lambda>(d, out). Inr out))"

definition sha256_run ::
  "(sha256_state \<Rightarrow> byte list \<Rightarrow> sha256_state) \<Rightarrow> sha256_digest \<Rightarrow> call list
     \<Rightarrow> go_panic + byte list" where
  "sha256_run f d0 cs =
     bindP (sha256_calls f d0 cs) (\<lambda>d. bindP (sha256_Sum f d []) (\<lambda>(d, out). Inr out))"

section \<open>Abstraction: what an instance has absorbed\<close>

text \<open>
  For the proofs, an instance is read as the pair of its state words and the bytes
  buffered so far (\<open>x[0..nx]\<close>). \<open>absorb\<close> is what writing \<open>p\<close> does to such a
  pair: every complete block of the buffered bytes followed by \<open>p\<close> is compressed,
  the incomplete rest is buffered.
\<close>

definition absorb ::
  "('h \<Rightarrow> byte list \<Rightarrow> 'h) \<Rightarrow> 'h \<times> byte list \<Rightarrow> byte list \<Rightarrow> 'h \<times> byte list" where
  "absorb f a p =
     (let m = snd a @ p in (block_loop f (fst a) m, drop (length m - length m mod 64) m))"

definition md5_abs :: "md5_digest \<Rightarrow> md5_state \<times> byte list" where
  "md5_abs d = (md5_s d, take (nat (md5_nx d)) (md5_x d))"

definition sha256_abs :: "sha256_digest \<Rightarrow> sha256_state \<times> byte list" where
  "sha256_abs d = (sha_h d, take (nat (sha_nx d)) (sha_x d))"

text \<open>The invariant of every instance a caller can hold.\<close>

definition md5_inv :: "md5_digest \<Rightarrow> bool" where
  "md5_inv d = (length (md5_x d) = 64 \<and> md5_nx d = uint (md5_len d) mod 64)"

definition sha256_inv :: "sha256_digest \<Rightarrow> bool" where
  "sha256_inv d = (length (sha_x d) = 64 \<and> sha_nx d = uint (sha_len d) mod 64)"

text \<open>
  A slice with capacity whose spare capacity is still zero, as \<^verbatim>\<open>make\<close> left it:
  the bytes \<open>bs\<close> followed by \<open>k\<close> zero bytes of spare capacity.
\<close>

definition zslice :: "byte list \<Rightarrow> nat \<Rightarrow> cslice" where
  "zslice bs k = CSlice (bs @ replicate k 0) (length bs)"

text \<open>
  The padded tail of a message of \<open>l\<close> bytes, and the array \<^verbatim>\<open>checkSum\<close> returns for
  an instance read as above: the state words after absorbing the padding, as bytes.
\<close>

definition pad_zeros :: "uint64 \<Rightarrow> nat" where
  "pad_zeros l = unat ((55 - l) mod 64)"

definition md5_final ::
  "(md5_state \<Rightarrow> byte list \<Rightarrow> md5_state) \<Rightarrow> md5_state \<times> byte list \<Rightarrow> uint64 \<Rightarrow> byte list" where
  "md5_final f a l =
     (case fst (absorb f a (0x80 # replicate (pad_zeros l) 0 @ le_bytes64 (push_bit 3 l))) of
        (s0, s1, s2, s3) \<Rightarrow> le_bytes32 s0 @ le_bytes32 s1 @ le_bytes32 s2 @ le_bytes32 s3)"

definition sha256_final ::
  "(sha256_state \<Rightarrow> byte list \<Rightarrow> sha256_state) \<Rightarrow> bool \<Rightarrow> sha256_state \<times> byte list
     \<Rightarrow> uint64 \<Rightarrow> byte list" where
  "sha256_final f is224 a l =
     (case fst (absorb f a (0x80 # replicate (pad_zeros l) 0 @ be_bytes64 (push_bit 3 l))) of
        (h0, h1, h2, h3, h4, h5, h6, h7) \<Rightarrow>
          be_bytes32 h0 @ be_bytes32 h1 @ be_bytes32 h2 @ be_bytes32 h3 @ be_bytes32 h4
          @ be_bytes32 h5 @ be_bytes32 h6 @ (if is224 then replicate 4 0 else be_bytes32 h7))"

text \<open>
  The blob \<^verbatim>\<open>MarshalBinary\<close> returns for an instance, and the instance a successful
  \<^verbatim>\<open>UnmarshalBinary\<close> of a blob \<open>b\<close> leaves (the proofs show both).
\<close>

definition md5_layout :: "md5_digest \<Rightarrow> byte list" where
  "md5_layout d =
     (case md5_s d of (s0, s1, s2, s3) \<Rightarrow>
        md5_magic @ be_bytes32 s0 @ be_bytes32 s1 @ be_bytes32 s2 @ be_bytes32 s3
        @ take (nat (md5_nx d)) (md5_x d) @ replicate (64 - nat (md5_nx d)) 0
        @ be_bytes64 (md5_len d))"

definition md5_import :: "md5_digest \<Rightarrow> byte list \<Rightarrow> md5_digest" where
  "md5_import d b =
     d\<lparr>md5_s := (be_word32 (take 4 (drop 4 b)), be_word32 (take 4 (drop 8 b)),
                 be_word32 (take 4 (drop 12 b)), be_word32 (take 4 (drop 16 b))),
       md5_x := take 64 (drop 20 b),
       md5_len := be_word64 (take 8 (drop 84 b)),
       md5_nx := uint (be_word64 (take 8 (drop 84 b)) mod 64)\<rparr>"

text \<open>The same for SHA-256; the magic tag follows the variant.\<close>

definition sha256_magic :: "sha256_digest \<Rightarrow> byte list" where
  "sha256_magic d = (if sha_is224 d then sha256_magic224 else sha256_magic256)"

definition sha256_layout :: "sha256_digest \<Rightarrow> byte list" where
  "sha256_layout d =
     (case sha_h d of (h0, h1, h2, h3, h4, h5, h6, h7) \<Rightarrow>
        sha256_magic d @ be_bytes32 h0 @ be_bytes32 h1 @ be_bytes32 h2 @ be_bytes32 h3
        @ be_bytes32 h4 @ be_bytes32 h5 @ be_bytes32 h6 @ be_bytes32 h7
        @ take (nat (sha_nx d)) (sha_x d) @ replicate (64 - nat (sha_nx d)) 0
        @ be_bytes64 (sha_len d))"

definition sha256_import :: "sha256_digest \<Rightarrow> byte list \<Rightarrow> sha256_digest" where
  "sha256_import d b =
     d\<lparr>sha_h := (be_word32 (take 4 (drop 4 b)), be_word32 (take 4 (drop 8 b)),
                 be_word32 (take 4 (drop 12 b)), be_word32 (take 4 (drop 16 b)),
                 be_word32 (take 4 (drop 20 b)), be_word32 (take 4 (drop 24 b)),
                 be_word32 (take 4 (drop 28 b)), be_word32 (take 4 (drop 32 b))),
       sha_x := take 64 (drop 36 b),
       sha_len := be_word64 (take 8 (drop 100 b)),
       sha_nx := uint (be_word64 (take 8 (drop 100 b)) mod 64)\<rparr>"

text \<open>
  The digest of a message \<open>m\<close>: absorbed by a fresh instance, padded, and read out
  (28 bytes for SHA-224).
\<close>

definition md5_digest_of :: "(md5_state \<Rightarrow> byte list \<Rightarrow> md5_state) \<Rightarrow> byte list \<Rightarrow> byte list" where
  "md5_digest_of f m = md5_final f (absorb f (md5_abs md5_New) m) (of_nat (length m))"

definition sha256_digest_of ::
  "(sha256_state \<Rightarrow> byte list \<Rightarrow> sha256_state) \<Rightarrow> sha256_digest \<Rightarrow> byte list \<Rightarrow> byte list" where
  "sha256_digest_of f d0 m =
     (if sha_is224 d0
      then take 28 (sha256_final f True (absorb f (sha256_abs d0) m) (of_nat (length m)))
      else sha256_final f False (absorb f (sha256_abs d0) m) (of_nat (length m)))"

section \<open>Lemmas\<close>

lemma bindP_Inr [simp]: "bindP (Inr v) k = k v"
  by (simp add: bindP_def)

lemma bindP_Inl [simp]: "bindP (Inl e) k = Inl e"
  by (simp add: bindP_def)

subsection \<open>Blocks and the abstract accumulator\<close>

lemma and_not_63: "(n::int) AND NOT 63 = n - n mod 64"
proof -
  have "n AND NOT (mask 6) = push_bit 6 (drop_bit 6 n)"
    by (rule bit_eqI) (auto simp: bit_simps)
  also have "\<dots> = n - n mod 64"
    by (simp add: push_bit_eq_mult drop_bit_eq_div minus_mod_eq_div_mult)
  finally show ?thesis by (simp add: mask_eq_exp_minus_1)
qed

lemma and_minus_64: "(n::int) AND - 64 = n - n mod 64"
  using and_not_63 [of n] by simp

lemma and_minus_64_nat: "nat (int n AND - 64) = n - n mod 64"
  by (simp add: and_minus_64 nat_diff_distrib' nat_mod_distrib flip: zmod_int)

lemma and_minus_64_bounds: "0 \<le> int n AND - 64" "int n AND - 64 \<le> int n"
  by (simp_all add: and_minus_64 zmod_le_nonneg_dividend)

lemma block_loop_short: "length p < 64 \<Longrightarrow> block_loop f h p = h"
  by (simp add: block_loop.simps)

lemma block_loop_append:
  "length u mod 64 = 0 \<Longrightarrow> block_loop f h (u @ v) = block_loop f (block_loop f h u) v"
proof (induction f h u rule: block_loop.induct)
  case (1 f h p)
  show ?case
  proof (cases "length p < 64")
    case True
    with 1 have "p = []" by simp
    then show ?thesis by (simp add: block_loop_short)
  next
    case False
    then have "length (drop 64 p) mod 64 = 0" using 1(2)
      by (simp add: le_mod_geq)
    note IH = 1(1)[OF False this]
    have a: "block_loop f h (p @ v) = block_loop f (f h (take 64 p)) (drop 64 p @ v)"
      using False by (subst block_loop.simps) simp
    have b: "block_loop f h p = block_loop f (f h (take 64 p)) (drop 64 p)"
      using False by (subst block_loop.simps) simp
    show ?thesis by (simp only: a b IH)
  qed
qed

lemma block_loop_take:
  "block_loop f h p = block_loop f h (take (length p - length p mod 64) p)"
proof -
  let ?k = "length p - length p mod 64"
  have "?k mod 64 = 0" by (simp add: minus_mod_eq_div_mult)
  moreover have "length (take ?k p) = ?k" by simp
  ultimately have "block_loop f h (take ?k p @ drop ?k p) = block_loop f (block_loop f h (take ?k p)) (drop ?k p)"
    by (intro block_loop_append) (simp only:)
  moreover have "length (drop ?k p) < 64" by simp
  ultimately show ?thesis by (simp add: block_loop_short)
qed

lemma tail_arith:
  fixes a b :: nat
  shows "(a - a mod 64) + ((a mod 64 + b) - (a mod 64 + b) mod 64) = (a + b) - (a + b) mod 64"
proof -
  define r where "r = a mod 64"
  define c where "c = (a + b) mod 64"
  have c: "(r + b) mod 64 = c" by (simp add: r_def c_def mod_add_left_eq)
  have "r \<le> a" by (simp add: r_def)
  moreover have "c \<le> r + b" using c mod_less_eq_dividend[of "r + b" 64] by simp
  ultimately have "(a - r) + ((r + b) - c) = (a + b) - c" by linarith
  then show ?thesis by (simp add: c flip: r_def c_def)
qed

lemma absorb_tail_length: "length (snd (absorb f a p)) = (length (snd a) + length p) mod 64"
  by (simp add: absorb_def Let_def)

lemma absorb_absorb: "absorb f (absorb f a p) q = absorb f a (p @ q)"
proof -
  obtain h t where a: "a = (h, t)" by (cases a)
  define m where "m = t @ p"
  define k where "k = length m - length m mod 64"
  define k' where "k' = length (drop k m @ q) - length (drop k m @ q) mod 64"
  have k64: "length (take k m) mod 64 = 0" by (simp add: k_def minus_mod_eq_div_mult)
  have kle: "k \<le> length m" by (simp add: k_def)
  have kk': "k + k' = length (m @ q) - length (m @ q) mod 64"
    unfolding k'_def k_def by (simp add: tail_arith)
  have split: "m @ q = take k m @ drop k m @ q" by simp
  have "block_loop f (block_loop f h m) (drop k m @ q)
      = block_loop f (block_loop f h (take k m)) (drop k m @ q)"
    unfolding k_def by (subst block_loop_take) (rule refl)
  also have "\<dots> = block_loop f h (take k m @ drop k m @ q)"
    using k64 by (rule block_loop_append [symmetric])
  finally have BL: "block_loop f (block_loop f h m) (drop k m @ q) = block_loop f h (m @ q)"
    by (simp only: split [symmetric])
  have "drop k (m @ q) = drop k m @ q" using kle by simp
  then have "drop k' (drop k m @ q) = drop k' (drop k (m @ q))" by (simp only:)
  also have "\<dots> = drop (k + k') (m @ q)" by (simp only: drop_drop add.commute)
  finally have dk: "drop k' (drop k m @ q) = drop (k + k') (m @ q)" .
  have L: "absorb f (absorb f a p) q
      = (block_loop f (block_loop f h m) (drop k m @ q), drop k' (drop k m @ q))"
    unfolding absorb_def Let_def a fst_conv snd_conv k'_def k_def m_def ..
  have R: "absorb f a (p @ q)
      = (block_loop f h (m @ q),
         drop (length (m @ q) - length (m @ q) mod 64) (m @ q))"
    unfolding absorb_def Let_def a fst_conv snd_conv m_def append_assoc ..
  show ?thesis by (simp only: L R BL dk kk')
qed

lemma absorb_Nil [simp]: "length (snd a) < 64 \<Longrightarrow> absorb f a [] = a"
  by (cases a) (simp add: absorb_def block_loop_short)

lemma md5_Write_buffered_0:
  "md5_nx d = 0 \<Longrightarrow> md5_Write_buffered f d p = Inr (d, p)"
  by (simp add: md5_Write_buffered_def)

lemma md5_Write_buffered_partial:
  assumes "length (md5_x d) = 64" "0 < md5_nx d" "int (length p) < 64 - md5_nx d"
  shows "md5_Write_buffered f d p =
           Inr (d\<lparr>md5_x := take (nat (md5_nx d)) (md5_x d) @ p @ drop (nat (md5_nx d) + length p) (md5_x d),
                   md5_nx := md5_nx d + int (length p)\<rparr>, [])"
  using assms
  by (simp add: md5_Write_buffered_def slice_from_def go_copy_def Let_def md5_BlockSize_def add.commute)

lemma md5_Write_buffered_fill:
  assumes "length (md5_x d) = 64" "0 < md5_nx d" "md5_nx d < 64" "64 - md5_nx d \<le> int (length p)"
  shows "md5_Write_buffered f d p =
           Inr (d\<lparr>md5_x := take (nat (md5_nx d)) (md5_x d) @ take (nat (64 - md5_nx d)) p,
                   md5_s := block_loop f (md5_s d) (take (nat (md5_nx d)) (md5_x d) @ take (nat (64 - md5_nx d)) p),
                   md5_nx := 0\<rparr>, drop (nat (64 - md5_nx d)) p)"
proof -
  have m: "min (64 - nat (md5_nx d)) (length p) = nat (64 - md5_nx d)"
    using assms by linarith
  show ?thesis using assms
    by (simp add: md5_Write_buffered_def slice_from_def go_copy_def Let_def md5_BlockSize_def
        md5_block_def m)
qed

lemma md5_Write_blocks_eq:
  "md5_Write_blocks f d p =
     Inr (d\<lparr>md5_s := block_loop f (md5_s d) p\<rparr>, drop (length p - length p mod 64) p)"
proof (cases "length p < 64")
  case True
  then show ?thesis
    by (simp add: md5_Write_blocks_def md5_BlockSize_def block_loop_short)
next
  case False
  then show ?thesis
    using block_loop_take [of f "md5_s d" p]
    by (simp add: md5_Write_blocks_def md5_BlockSize_def Let_def slice_to_def slice_from_def
        and_minus_64_nat and_minus_64_bounds md5_block_def)
qed

lemma md5_Write_rest_short:
  assumes "length (md5_x d) = 64" "md5_nx d = 0" "length p < 64"
  shows "md5_abs (md5_Write_rest d p) = (md5_s d, p)"
    "length (md5_x (md5_Write_rest d p)) = 64"
    "md5_nx (md5_Write_rest d p) = int (length p)"
    "md5_len (md5_Write_rest d p) = md5_len d"
  using assms by (simp_all add: md5_Write_rest_def go_copy_def md5_abs_def Let_def)

lemma md5_Write_sim:
  assumes "length (md5_x d) = 64" "0 \<le> md5_nx d" "md5_nx d < 64"
  shows "\<exists>d'. md5_Write f d p = Inr (d', int (length p), None)
            \<and> md5_abs d' = absorb f (md5_abs d) p
            \<and> length (md5_x d') = 64
            \<and> md5_nx d' = (md5_nx d + int (length p)) mod 64
            \<and> md5_len d' = md5_len d + of_nat (length p)"
proof -
  define d0 where "d0 = d\<lparr>md5_len := md5_len d + of_int (int (length p))\<rparr>"
  have W: "md5_Write f d p =
      bindP (md5_Write_buffered f d0 p) (\<lambda>(d, q).
      bindP (md5_Write_blocks f d q) (\<lambda>(d, q). Inr (md5_Write_rest d q, int (length p), None)))"
    by (simp add: md5_Write_def Let_def d0_def)
  have d0: "length (md5_x d0) = 64" "md5_nx d0 = md5_nx d" "md5_s d0 = md5_s d"
    "md5_x d0 = md5_x d" "md5_len d0 = md5_len d + of_nat (length p)"
    using assms by (simp_all add: d0_def)
  consider (empty) "md5_nx d = 0"
    | (partial) "0 < md5_nx d" "int (length p) < 64 - md5_nx d"
    | (fill) "0 < md5_nx d" "64 - md5_nx d \<le> int (length p)"
    using assms by linarith
  then show ?thesis
  proof cases
    case empty
    define k where "k = length p - length p mod 64"
    define d1 where "d1 = d0\<lparr>md5_s := block_loop f (md5_s d0) p\<rparr>"
    have d1: "length (md5_x d1) = 64" "md5_nx d1 = 0" "length (drop k p) < 64"
      using d0 empty by (simp_all add: d1_def k_def)
    have "md5_Write f d p = Inr (md5_Write_rest d1 (drop k p), int (length p), None)"
      using empty d0 by (simp add: W md5_Write_buffered_0 md5_Write_blocks_eq d1_def k_def)
    moreover have "absorb f (md5_abs d) p = (md5_s d1, drop k p)"
      using empty d0 by (simp add: absorb_def md5_abs_def d1_def k_def)
    moreover have "(md5_nx d + int (length p)) mod 64 = int (length (drop k p))"
      using empty by (simp add: k_def zmod_int)
    moreover have "md5_len d1 = md5_len d + of_nat (length p)"
      using d0 by (simp add: d1_def)
    ultimately show ?thesis
      using md5_Write_rest_short [OF d1] by simp
  next
    case partial
    define d1 where "d1 = d0\<lparr>md5_x := take (nat (md5_nx d)) (md5_x d) @ p @ drop (nat (md5_nx d) + length p) (md5_x d),
                   md5_nx := md5_nx d + int (length p)\<rparr>"
    have "md5_Write f d p = Inr (d1, int (length p), None)"
      using partial d0 assms
      by (simp add: W md5_Write_buffered_partial md5_Write_blocks_eq block_loop_short
          md5_Write_rest_def d1_def)
    moreover have "md5_abs d1 = absorb f (md5_abs d) p"
      using partial d0 assms
      by (simp add: absorb_def md5_abs_def d1_def block_loop_short nat_add_distrib)
    moreover have "length (md5_x d1) = 64" "md5_nx d1 = (md5_nx d + int (length p)) mod 64"
       "md5_len d1 = md5_len d + of_nat (length p)"
      using partial d0 assms by (simp_all add: d1_def)
    ultimately show ?thesis by simp
  next
    case fill
    define n where "n = nat (64 - md5_nx d)"
    define x1 where "x1 = take (nat (md5_nx d)) (md5_x d) @ take n p"
    define q where "q = drop n p"
    define k where "k = length q - length q mod 64"
    define d1 where "d1 = d0\<lparr>md5_x := x1, md5_s := block_loop f (md5_s d) x1, md5_nx := 0\<rparr>"
    define d2 where "d2 = d1\<lparr>md5_s := block_loop f (md5_s d1) q\<rparr>"
    have x1: "length x1 = 64" using fill assms by (simp add: x1_def n_def)
    have m: "take (nat (md5_nx d)) (md5_x d) @ p = x1 @ q" by (simp add: x1_def q_def)
    have d2: "length (md5_x d2) = 64" "md5_nx d2 = 0" "length (drop k q) < 64"
      using x1 by (simp_all add: d2_def d1_def k_def)
    have "md5_Write_buffered f d0 p = Inr (d1, q)"
      using md5_Write_buffered_fill [of d0 p f] fill d0 assms
      by (simp add: d1_def x1_def q_def n_def)
    then have "md5_Write f d p = Inr (md5_Write_rest d2 (drop k q), int (length p), None)"
      by (simp add: W md5_Write_blocks_eq d2_def k_def)
    moreover have "absorb f (md5_abs d) p = (md5_s d2, drop k q)"
      using x1 by (simp add: absorb_def md5_abs_def m d2_def d1_def k_def block_loop_append)
    moreover have "(md5_nx d + int (length p)) mod 64 = int (length (drop k q))"
    proof -
      have "md5_nx d + int (length p) = 64 + int (length q)"
        using fill assms by (simp add: q_def n_def)
      then show ?thesis by (simp add: k_def zmod_int)
    qed
    moreover have "md5_len d2 = md5_len d + of_nat (length p)"
      using d0 by (simp add: d2_def d1_def)
    ultimately show ?thesis
      using md5_Write_rest_short [OF d2] by simp
  qed
qed

subsection \<open>Word arithmetic, the invariant and the MD5 padding\<close>

lemma unat_add_of_nat_mod_64:
  "unat ((l::uint64) + of_nat n) mod 64 = (unat l mod 64 + n) mod 64"
proof -
  have "unat (l + of_nat n) = (unat l + n mod 2 ^ 64) mod 2 ^ 64"
    by (simp add: unat_word_ariths unat_of_nat)
  also have "\<dots> = (unat l + n) mod 2 ^ 64"
    by (simp add: mod_add_right_eq)
  finally have "unat (l + of_nat n) mod 64 = (unat l + n) mod 2 ^ 64 mod 64"
    by simp
  also have "\<dots> = (unat l + n) mod 64"
    by (rule mod_mod_cancel) simp
  finally show ?thesis by (simp add: mod_add_left_eq)
qed

lemma uint_add_of_nat_mod_64:
  "uint ((l::uint64) + of_nat n) mod 64 = (uint l mod 64 + int n) mod 64"
proof -
  have "int (unat (l + of_nat n) mod 64) = int ((unat l mod 64 + n) mod 64)"
    by (simp only: unat_add_of_nat_mod_64)
  then show ?thesis by (simp add: zmod_int)
qed

lemma md5_inv_bounds:
  "md5_inv d \<Longrightarrow> length (md5_x d) = 64 \<and> 0 \<le> md5_nx d \<and> md5_nx d < 64"
  by (simp add: md5_inv_def)

lemma md5_Write_inv:
  assumes "md5_inv d"
  shows "\<exists>d'. md5_Write f d p = Inr (d', int (length p), None)
            \<and> md5_abs d' = absorb f (md5_abs d) p
            \<and> md5_inv d'
            \<and> md5_len d' = md5_len d + of_nat (length p)"
proof -
  from assms have b: "length (md5_x d) = 64" "0 \<le> md5_nx d" "md5_nx d < 64"
    by (simp_all add: md5_inv_def)
  from md5_Write_sim [OF b, of f p] obtain d' where
    d': "md5_Write f d p = Inr (d', int (length p), None)"
        "md5_abs d' = absorb f (md5_abs d) p" "length (md5_x d') = 64"
        "md5_nx d' = (md5_nx d + int (length p)) mod 64"
        "md5_len d' = md5_len d + of_nat (length p)"
    by blast
  have "md5_inv d'"
    using assms d'(3,4,5) by (simp add: md5_inv_def uint_add_of_nat_mod_64)
  with d' show ?thesis by blast
qed

lemma pad_lt_64: "unat (((55::uint64) - l) mod 64) < 64"
  by (simp add: unat_mod)

lemma unat_small_add:
  fixes c p :: uint64
  assumes "unat c < 100" "unat p < 64"
  shows "unat (c + p) = unat c + unat p"
proof -
  have "unat c + unat p < 2 ^ LENGTH(64)" using assms by simp
  then show ?thesis by (simp only: unat_add_lem [THEN iffD1])
qed

lemma pad_congruence:
  fixes l :: uint64
  shows "(unat l + 1 + unat ((55 - l) mod 64)) mod 64 = 56"
proof -
  have "uint ((55 - l) mod 64) = (55 - uint l) mod 2 ^ 64 mod 64"
    by (simp add: uint_mod uint_word_ariths)
  also have "\<dots> = (55 - uint l) mod 64"
    by (rule mod_mod_cancel) simp
  finally have "(uint l + 1 + uint ((55 - l) mod 64)) mod 64 = (uint l + 1 + (55 - uint l)) mod 64"
    by (simp only: mod_add_right_eq)
  then have "int ((unat l + 1 + unat ((55 - l) mod 64)) mod 64) = 56"
    by (simp add: zmod_int algebra_simps)
  then show ?thesis by linarith
qed

lemma pad_word_facts:
  fixes l :: uint64
  defines "pad \<equiv> (55 - l) mod 64"
  shows "unat pad < 64" "unat (1 + pad) = Suc (unat pad)" "unat (9 + pad) = 9 + unat pad"
    "uint (1 + pad) \<le> 72" "uint (9 + pad) \<le> 72"
proof -
  show k: "unat pad < 64" unfolding pad_def by (rule pad_lt_64)
  show u1: "unat (1 + pad) = Suc (unat pad)"
    using unat_small_add [of 1 pad] k by simp
  show u9: "unat (9 + pad) = 9 + unat pad" 
    using unat_small_add [of 9 pad] k by simp
  have "uint (1 + pad) = int (unat (1 + pad))" by (rule uint_nat)
  then show "uint (1 + pad) \<le> 72" using k unfolding u1 by linarith
  have "uint (9 + pad) = int (unat (9 + pad))" by (rule uint_nat)
  then show "uint (9 + pad) \<le> 72" using k unfolding u9 by linarith
qed

lemma md5_padding_eq:
  "md5_padding l =
     Inr (0x80 # replicate (unat ((55 - l) mod 64)) 0 @ le_bytes64 (push_bit 3 l))"
proof -
  define k where "k = unat ((55 - l) mod 64)"
  note pf = pad_word_facts [of l, folded k_def]
  have len: "length (le_bytes64 v) = 8" for v by (simp add: le_bytes64_def)
  have t: "take (9 + k) (128 # replicate k 0 @ le_bytes64 v @ r) = 128 # replicate k 0 @ le_bytes64 v"
    for v and r :: "byte list"
  proof -
    have "length (128 # replicate k 0 @ le_bytes64 v) = 9 + k" by (simp add: len)
    then show ?thesis
      by (metis append_Cons append_assoc append_eq_conv_conj)
  qed
  have k8: "\<not> 71 - k < 8" "k \<le> 71" using pf(1) by linarith+
  have k9: "uint (9 + (55 - l) mod 64) \<le> 9 + (int k + int (63 - k))"
    using pf(1,5) by linarith
  show ?thesis
    by (simp add: md5_padding_def Let_def slice_from_def slice_to_def LittleEndian_PutUint64_def
        put_bytes_def pf(2,3,4,5) len t k8 k9 flip: k_def)
qed

subsection \<open>The MD5 finalization\<close>

lemma length_bytes [simp]:
  "length (le_bytes32 v) = 4" "length (be_bytes32 v) = 4"
  "length (le_bytes64 w) = 8" "length (be_bytes64 w) = 8"
  by (simp_all add: le_bytes32_def be_bytes32_def le_bytes64_def be_bytes64_def)

lemma put_bytes_ok: "length bs \<le> length dst \<Longrightarrow> put_bytes dst bs = Inr (bs @ drop (length bs) dst)"
  by (simp add: put_bytes_def)

lemma md5_padding_eq': 
  "md5_padding l = Inr (0x80 # replicate (pad_zeros l) 0 @ le_bytes64 (push_bit 3 l))"
  by (simp add: md5_padding_eq pad_zeros_def)

lemma pad_length_mod: "(uint l mod 64 + int (9 + pad_zeros l)) mod 64 = 0"
proof -
  have "(unat l + 1 + pad_zeros l + 8) mod 64 = ((unat l + 1 + pad_zeros l) mod 64 + 8) mod 64"
    by (simp only: mod_add_left_eq)
  also have "\<dots> = 0" unfolding pad_zeros_def pad_congruence by simp
  finally have "int ((unat l + 1 + pad_zeros l + 8) mod 64) = 0" by simp
  then have "(uint l + int (9 + pad_zeros l)) mod 64 = 0"
    by (simp add: zmod_int algebra_simps)
  then show ?thesis by (simp add: mod_add_left_eq)
qed

lemma md5_checkSum_eq:
  assumes "md5_inv d"
  shows "\<exists>d'. md5_checkSum f d = Inr (d', md5_final f (md5_abs d) (md5_len d)) \<and> md5_nx d' = 0"
proof -
  define p where "p = 0x80 # replicate (pad_zeros (md5_len d)) 0 @ le_bytes64 (push_bit 3 (md5_len d))"
  from assms have b: "length (md5_x d) = 64" "0 \<le> md5_nx d" "md5_nx d < 64"
    and nx: "md5_nx d = uint (md5_len d) mod 64"
    by (simp_all add: md5_inv_def)
  from md5_Write_sim [OF b, of f p] obtain d' where
    d': "md5_Write f d p = Inr (d', int (length p), None)"
        "md5_abs d' = absorb f (md5_abs d) p"
        "md5_nx d' = (md5_nx d + int (length p)) mod 64"
    by blast
  have lp: "length p = 9 + pad_zeros (md5_len d)" by (simp add: p_def)
  have nx': "md5_nx d' = 0"
    unfolding d'(3) nx lp by (rule pad_length_mod)
  have "md5_s d' = fst (md5_abs d')" by (simp add: md5_abs_def)
  then have s: "md5_s d' = fst (absorb f (md5_abs d) p)" by (simp only: d'(2))
  obtain s0 s1 s2 s3 where t: "fst (absorb f (md5_abs d) p) = (s0, s1, s2, s3)"
    by (cases "fst (absorb f (md5_abs d) p)")
  have "md5_checkSum f d = Inr (d', md5_final f (md5_abs d) (md5_len d))"
    by (simp add: md5_checkSum_def md5_padding_eq' d'(1) nx' s t md5_final_def md5_Size_def
        LittleEndian_PutUint32_def put_bytes_ok flip: p_def)
  with nx' show ?thesis by blast
qed

subsection \<open>Encoding and decoding words\<close>

lemma be_word32_bytes: "be_word32 (be_bytes32 v @ r) = v"
proof (rule bit_word_eqI)
  fix n assume n: "n < LENGTH(32)"
  consider "n < 8" | "8 \<le> n" "n < 16" | "16 \<le> n" "n < 24" | "24 \<le> n" "n < 32"
    using n by fastforce
  then show "bit (be_word32 (be_bytes32 v @ r)) n = bit v n"
    by cases (auto simp add: be_word32_def be_bytes32_def bit_simps)
qed

lemma be_word64_bytes: "be_word64 (be_bytes64 v @ r) = v"
proof (rule bit_word_eqI)
  fix n assume n: "n < LENGTH(64)"
  consider "n < 8" | "8 \<le> n" "n < 16" | "16 \<le> n" "n < 24" | "24 \<le> n" "n < 32"
    | "32 \<le> n" "n < 40" | "40 \<le> n" "n < 48" | "48 \<le> n" "n < 56" | "56 \<le> n" "n < 64"
    using n by fastforce
  then show "bit (be_word64 (be_bytes64 v @ r)) n = bit v n"
    by cases (auto simp add: be_word64_def be_bytes64_def bit_simps)
qed

subsection \<open>Serialization of an MD5 instance\<close>

lemma go_make_zslice: "go_make 0 c = zslice [] c"
  by (simp add: go_make_def zslice_def)

lemma go_append_zslice:
  "length ys \<le> k \<Longrightarrow> go_append (zslice bs k) ys = zslice (bs @ ys) (k - length ys)"
  by (simp add: go_append_def zslice_def Let_def flip: replicate_add)

lemma slen_zslice [simp]: "slen (zslice bs k) = length bs"
  by (simp add: zslice_def)

lemma cslice_bytes_zslice [simp]: "cslice_bytes (zslice bs k) = bs"
  by (simp add: zslice_def cslice_bytes_def)

lemma cslice_to_zslice:
  "n \<le> k \<Longrightarrow> cslice_to (zslice bs k) (int (length bs) + int n)
     = Inr (zslice (bs @ replicate n 0) (k - n))"
  by (simp add: cslice_to_def zslice_def nat_add_distrib flip: replicate_add)

lemma appendUint32_zslice:
  "4 \<le> k \<Longrightarrow> md5_appendUint32 (zslice bs k) v = Inr (zslice (bs @ be_bytes32 v) (k - 4))"
  "4 \<le> k \<Longrightarrow> sha256_appendUint32 (zslice bs k) v = Inr (zslice (bs @ be_bytes32 v) (k - 4))"
  by (simp_all add: md5_appendUint32_def sha256_appendUint32_def BigEndian_PutUint32_def
      put_bytes_ok go_append_zslice)

lemma appendUint64_zslice:
  "8 \<le> k \<Longrightarrow> md5_appendUint64 (zslice bs k) v = Inr (zslice (bs @ be_bytes64 v) (k - 8))"
  "8 \<le> k \<Longrightarrow> sha256_appendUint64 (zslice bs k) v = Inr (zslice (bs @ be_bytes64 v) (k - 8))"
  by (simp_all add: md5_appendUint64_def sha256_appendUint64_def BigEndian_PutUint64_def
      put_bytes_ok go_append_zslice)

lemma md5_MarshalBinary_eq:
  assumes "length (md5_x d) = 64" "0 \<le> md5_nx d" "md5_nx d \<le> 64"
  shows "md5_MarshalBinary d = Inr (md5_layout d, None)"
proof -
  obtain s0 s1 s2 s3 where s: "md5_s d = (s0, s1, s2, s3)" by (cases "md5_s d")
  define n where "n = nat (md5_nx d)"
  have nx: "md5_nx d = int n" "n \<le> 64" using assms by (simp_all add: n_def)
  define bs where "bs = md5_magic @ be_bytes32 s0 @ be_bytes32 s1 @ be_bytes32 s2 @ be_bytes32 s3 @ take n (md5_x d)"
  have lbs: "length bs = 20 + n" using assms nx by (simp add: bs_def md5_magic_def)
  have lm: "length md5_magic = 4" by (simp add: md5_magic_def)
  have ext: "int (length bs) + 64 - int n = int (length bs) + int (64 - n)" using nx by simp
  have "cslice_to (zslice bs (72 - n)) (int (length bs) + int (64 - n))
      = Inr (zslice (bs @ replicate (64 - n) 0) (72 - n - (64 - n)))"
    by (rule cslice_to_zslice) simp
  moreover have "72 - n - (64 - n) = 8" using nx by simp
  ultimately have c: "cslice_to (zslice bs (72 - n)) (int (length bs) + 64 - int n)
      = Inr (zslice (bs @ replicate (64 - n) 0) 8)"
    by (simp only: ext)
  have "md5_MarshalBinary d = Inr (bs @ replicate (64 - n) 0 @ be_bytes64 (md5_len d), None)"
    using assms nx(2)
    by (simp add: md5_MarshalBinary_def s md5_marshaledSize_def md5_BlockSize_def go_make_zslice
        go_append_zslice appendUint32_zslice appendUint64_zslice slice_to_def nx(1) c
        lm flip: bs_def)
  then show ?thesis by (simp add: md5_layout_def s bs_def n_def)
qed

subsection \<open>Import of an MD5 instance\<close>

lemma md5_consumeUint32_eq:
  "4 \<le> length b \<Longrightarrow> md5_consumeUint32 b = Inr (drop 4 b, be_word32 (take 4 b))"
  by (simp add: md5_consumeUint32_def slice_from_def slice_to_def BigEndian_Uint32_def)

lemma md5_consumeUint64_eq:
  "8 \<le> length b \<Longrightarrow> md5_consumeUint64 b = Inr (drop 8 b, be_word64 (take 8 b))"
  by (simp add: md5_consumeUint64_def slice_from_def slice_to_def BigEndian_Uint64_def)

lemma length_md5_magic [simp]: "length md5_magic = 4"
  by (simp add: md5_magic_def)

lemma md5_UnmarshalBinary_bad_magic:
  "take 4 b \<noteq> md5_magic \<Longrightarrow>
   md5_UnmarshalBinary d b = Inr (d, Some (Error ''crypto/md5: invalid hash state identifier''))"
  by (simp add: md5_UnmarshalBinary_def slice_to_def)

lemma md5_UnmarshalBinary_bad_size:
  assumes "take 4 b = md5_magic" "length b \<noteq> 92"
  shows "md5_UnmarshalBinary d b = Inr (d, Some (Error ''crypto/md5: invalid hash state size''))"
proof -
  have "4 \<le> length b" using assms(1) length_md5_magic
    by (metis length_take min.cobounded1 min.commute)
  then show ?thesis using assms
    by (simp add: md5_UnmarshalBinary_def slice_to_def md5_marshaledSize_def md5_BlockSize_def)
qed

lemma md5_UnmarshalBinary_ok:
  assumes "take 4 b = md5_magic" "length b = 92" "length (md5_x d) = 64"
  shows "md5_UnmarshalBinary d b = Inr (md5_import d b, None)"
  using assms
  by (simp add: md5_UnmarshalBinary_def slice_to_def slice_from_def md5_marshaledSize_def
      md5_BlockSize_def md5_consumeUint32_eq md5_consumeUint64_eq go_copy_def Let_def
      md5_import_def)

subsection \<open>Call sequences on an MD5 instance\<close>

lemma md5_inv_import:
  "length b = 92 \<Longrightarrow> md5_inv (md5_import d b)"
  by (simp add: md5_inv_def md5_import_def uint_mod)

lemma md5_inv_Reset: "length (md5_x d) = 64 \<Longrightarrow> md5_inv (md5_Reset d)"
  by (simp add: md5_inv_def md5_Reset_def)

lemma md5_inv_New: "md5_inv md5_New"
  by (simp add: md5_New_def md5_zero_def md5_inv_Reset)

lemma md5_Sum_eq:
  "md5_inv d \<Longrightarrow> md5_Sum f d inp = Inr (d, inp @ md5_final f (md5_abs d) (md5_len d))"
  using md5_checkSum_eq [of d f] by (auto simp add: md5_Sum_def)

lemma md5_UnmarshalBinary_inv:
  assumes "md5_inv d"
  shows "\<exists>d' e. md5_UnmarshalBinary d b = Inr (d', e) \<and> md5_inv d'"
proof -
  have x: "length (md5_x d) = 64" using assms by (simp add: md5_inv_def)
  consider "take 4 b \<noteq> md5_magic" | "take 4 b = md5_magic" "length b \<noteq> 92"
    | "take 4 b = md5_magic" "length b = 92" by blast
  then show ?thesis
  proof cases
    case 1 then show ?thesis using assms by (simp add: md5_UnmarshalBinary_bad_magic)
  next
    case 2 then show ?thesis using assms by (simp add: md5_UnmarshalBinary_bad_size)
  next
    case 3 then show ?thesis using x by (simp add: md5_UnmarshalBinary_ok md5_inv_import)
  qed
qed

lemma md5_call_inv:
  assumes "md5_inv d"
  shows "\<exists>d'. md5_call f d c = Inr d' \<and> md5_inv d'"
proof (cases c)
  case (Call_Write p)
  then show ?thesis using md5_Write_inv [OF assms, of f p] by auto
next
  case Call_Reset
  then show ?thesis using assms md5_inv_Reset [of d] by (simp add: md5_inv_def)
next
  case (Call_Sum inp)
  then show ?thesis using assms by (simp add: md5_Sum_eq)
next
  case Call_MarshalBinary
  then show ?thesis using assms md5_MarshalBinary_eq [of d]
    by (simp add: md5_inv_def)
next
  case (Call_UnmarshalBinary b)
  then show ?thesis using md5_UnmarshalBinary_inv [OF assms, of b] by auto
qed

lemma md5_calls_inv:
  "md5_inv d \<Longrightarrow> \<exists>d'. md5_calls f d cs = Inr d' \<and> md5_inv d'"
proof (induction cs arbitrary: d)
  case Nil
  then show ?case by simp
next
  case (Cons c cs)
  from md5_call_inv [OF Cons.prems, of f c] obtain d1 where
    "md5_call f d c = Inr d1" "md5_inv d1" by blast
  with Cons.IH [of d1] show ?case by simp
qed

lemma md5_calls_append:
  "md5_calls f d (cs @ cs') = bindP (md5_calls f d cs) (\<lambda>d. md5_calls f d cs')"
proof (induction cs arbitrary: d)
  case Nil
  then show ?case by simp
next
  case (Cons c cs)
  then show ?case by (cases "md5_call f d c") simp_all
qed

lemma md5_writes_abs:
  assumes "md5_inv d"
  shows "\<exists>d'. md5_calls f d (map Call_Write ps) = Inr d' \<and> md5_inv d'
            \<and> md5_abs d' = absorb f (md5_abs d) (concat ps)
            \<and> md5_len d' = md5_len d + of_nat (length (concat ps))"
  using assms
proof (induction ps arbitrary: d)
  case Nil
  then have "length (snd (md5_abs d)) < 64" by (simp add: md5_abs_def md5_inv_def)
  with Nil show ?case by simp
next
  case (Cons p ps)
  from md5_Write_inv [OF Cons.prems, of f p] obtain d1 where
    d1: "md5_Write f d p = Inr (d1, int (length p), None)"
        "md5_abs d1 = absorb f (md5_abs d) p" "md5_inv d1"
        "md5_len d1 = md5_len d + of_nat (length p)" by blast
  from Cons.IH [OF d1(3)] obtain d' where
    d': "md5_calls f d1 (map Call_Write ps) = Inr d'" "md5_inv d'"
        "md5_abs d' = absorb f (md5_abs d1) (concat ps)"
        "md5_len d' = md5_len d1 + of_nat (length (concat ps))" by blast
  have "md5_calls f d (map Call_Write (p # ps)) = Inr d'"
    by (simp add: d1(1) d'(1))
  moreover have "md5_abs d' = absorb f (md5_abs d) (concat (p # ps))"
    by (simp add: d'(3) d1(2) absorb_absorb)
  moreover have "md5_len d' = md5_len d + of_nat (length (concat (p # ps)))"
    by (simp add: d'(4) d1(4))
  ultimately show ?case using d'(2) by blast
qed

subsection \<open>SHA-256: writes and padding\<close>

lemma sha256_Write_buffered_0:
  "sha_nx d = 0 \<Longrightarrow> sha256_Write_buffered f d p = Inr (d, p)"
  by (simp add: sha256_Write_buffered_def)

lemma sha256_Write_buffered_partial:
  assumes "length (sha_x d) = 64" "0 < sha_nx d" "int (length p) < 64 - sha_nx d"
  shows "sha256_Write_buffered f d p =
           Inr (d\<lparr>sha_x := take (nat (sha_nx d)) (sha_x d) @ p @ drop (nat (sha_nx d) + length p) (sha_x d),
                   sha_nx := sha_nx d + int (length p)\<rparr>, [])"
  using assms
  by (simp add: sha256_Write_buffered_def slice_from_def go_copy_def Let_def sha256_chunk_def add.commute)

lemma sha256_Write_buffered_fill:
  assumes "length (sha_x d) = 64" "0 < sha_nx d" "sha_nx d < 64" "64 - sha_nx d \<le> int (length p)"
  shows "sha256_Write_buffered f d p =
           Inr (d\<lparr>sha_x := take (nat (sha_nx d)) (sha_x d) @ take (nat (64 - sha_nx d)) p,
                   sha_h := block_loop f (sha_h d) (take (nat (sha_nx d)) (sha_x d) @ take (nat (64 - sha_nx d)) p),
                   sha_nx := 0\<rparr>, drop (nat (64 - sha_nx d)) p)"
proof -
  have m: "min (64 - nat (sha_nx d)) (length p) = nat (64 - sha_nx d)"
    using assms by linarith
  show ?thesis using assms
    by (simp add: sha256_Write_buffered_def slice_from_def go_copy_def Let_def sha256_chunk_def
        sha256_block_def m)
qed

lemma sha256_Write_blocks_eq:
  "sha256_Write_blocks f d p =
     Inr (d\<lparr>sha_h := block_loop f (sha_h d) p\<rparr>, drop (length p - length p mod 64) p)"
proof (cases "length p < 64")
  case True
  then show ?thesis
    by (simp add: sha256_Write_blocks_def sha256_chunk_def block_loop_short)
next
  case False
  then show ?thesis
    using block_loop_take [of f "sha_h d" p]
    by (simp add: sha256_Write_blocks_def sha256_chunk_def Let_def slice_to_def slice_from_def
        and_minus_64_nat and_minus_64_bounds sha256_block_def)
qed

lemma sha256_Write_rest_short:
  assumes "length (sha_x d) = 64" "sha_nx d = 0" "length p < 64"
  shows "sha256_abs (sha256_Write_rest d p) = (sha_h d, p)"
    "length (sha_x (sha256_Write_rest d p)) = 64"
    "sha_nx (sha256_Write_rest d p) = int (length p)"
    "sha_len (sha256_Write_rest d p) = sha_len d"
    "sha_is224 (sha256_Write_rest d p) = sha_is224 d"
  using assms by (simp_all add: sha256_Write_rest_def go_copy_def sha256_abs_def Let_def)

lemma sha256_Write_sim:
  assumes "length (sha_x d) = 64" "0 \<le> sha_nx d" "sha_nx d < 64"
  shows "\<exists>d'. sha256_Write f d p = Inr (d', int (length p), None)
            \<and> sha256_abs d' = absorb f (sha256_abs d) p
            \<and> length (sha_x d') = 64
            \<and> sha_nx d' = (sha_nx d + int (length p)) mod 64
            \<and> sha_len d' = sha_len d + of_nat (length p)
            \<and> sha_is224 d' = sha_is224 d"
proof -
  define d0 where "d0 = d\<lparr>sha_len := sha_len d + of_int (int (length p))\<rparr>"
  have W: "sha256_Write f d p =
      bindP (sha256_Write_buffered f d0 p) (\<lambda>(d, q).
      bindP (sha256_Write_blocks f d q) (\<lambda>(d, q). Inr (sha256_Write_rest d q, int (length p), None)))"
    by (simp add: sha256_Write_def Let_def d0_def)
  have d0: "length (sha_x d0) = 64" "sha_nx d0 = sha_nx d" "sha_h d0 = sha_h d"
    "sha_x d0 = sha_x d" "sha_len d0 = sha_len d + of_nat (length p)"
    using assms by (simp_all add: d0_def)
  consider (empty) "sha_nx d = 0"
    | (partial) "0 < sha_nx d" "int (length p) < 64 - sha_nx d"
    | (fill) "0 < sha_nx d" "64 - sha_nx d \<le> int (length p)"
    using assms by linarith
  then show ?thesis
  proof cases
    case empty
    define k where "k = length p - length p mod 64"
    define d1 where "d1 = d0\<lparr>sha_h := block_loop f (sha_h d0) p\<rparr>"
    have d1: "length (sha_x d1) = 64" "sha_nx d1 = 0" "length (drop k p) < 64"
      using d0 empty by (simp_all add: d1_def k_def)
    have "sha256_Write f d p = Inr (sha256_Write_rest d1 (drop k p), int (length p), None)"
      using empty d0 by (simp add: W sha256_Write_buffered_0 sha256_Write_blocks_eq d1_def k_def)
    moreover have "absorb f (sha256_abs d) p = (sha_h d1, drop k p)"
      using empty d0 by (simp add: absorb_def sha256_abs_def d1_def k_def)
    moreover have "(sha_nx d + int (length p)) mod 64 = int (length (drop k p))"
      using empty by (simp add: k_def zmod_int)
    moreover have "sha_len d1 = sha_len d + of_nat (length p)" "sha_is224 d1 = sha_is224 d"
      using d0 by (simp_all add: d1_def d0_def)
    ultimately show ?thesis
      using sha256_Write_rest_short [OF d1] by simp
  next
    case partial
    define d1 where "d1 = d0\<lparr>sha_x := take (nat (sha_nx d)) (sha_x d) @ p @ drop (nat (sha_nx d) + length p) (sha_x d),
                   sha_nx := sha_nx d + int (length p)\<rparr>"
    have "sha256_Write f d p = Inr (d1, int (length p), None)"
      using partial d0 assms
      by (simp add: W sha256_Write_buffered_partial sha256_Write_blocks_eq block_loop_short
          sha256_Write_rest_def d1_def)
    moreover have "sha256_abs d1 = absorb f (sha256_abs d) p"
      using partial d0 assms
      by (simp add: absorb_def sha256_abs_def d1_def block_loop_short nat_add_distrib)
    moreover have "length (sha_x d1) = 64" "sha_nx d1 = (sha_nx d + int (length p)) mod 64"
       "sha_len d1 = sha_len d + of_nat (length p)" "sha_is224 d1 = sha_is224 d"
      using partial d0 assms by (simp_all add: d1_def d0_def)
    ultimately show ?thesis by simp
  next
    case fill
    define n where "n = nat (64 - sha_nx d)"
    define x1 where "x1 = take (nat (sha_nx d)) (sha_x d) @ take n p"
    define q where "q = drop n p"
    define k where "k = length q - length q mod 64"
    define d1 where "d1 = d0\<lparr>sha_x := x1, sha_h := block_loop f (sha_h d) x1, sha_nx := 0\<rparr>"
    define d2 where "d2 = d1\<lparr>sha_h := block_loop f (sha_h d1) q\<rparr>"
    have x1: "length x1 = 64" using fill assms by (simp add: x1_def n_def)
    have m: "take (nat (sha_nx d)) (sha_x d) @ p = x1 @ q" by (simp add: x1_def q_def)
    have d2: "length (sha_x d2) = 64" "sha_nx d2 = 0" "length (drop k q) < 64"
      using x1 by (simp_all add: d2_def d1_def k_def)
    have "sha256_Write_buffered f d0 p = Inr (d1, q)"
      using sha256_Write_buffered_fill [of d0 p f] fill d0 assms
      by (simp add: d1_def x1_def q_def n_def)
    then have "sha256_Write f d p = Inr (sha256_Write_rest d2 (drop k q), int (length p), None)"
      by (simp add: W sha256_Write_blocks_eq d2_def k_def)
    moreover have "absorb f (sha256_abs d) p = (sha_h d2, drop k q)"
      using x1 by (simp add: absorb_def sha256_abs_def m d2_def d1_def k_def block_loop_append)
    moreover have "(sha_nx d + int (length p)) mod 64 = int (length (drop k q))"
    proof -
      have "sha_nx d + int (length p) = 64 + int (length q)"
        using fill assms by (simp add: q_def n_def)
      then show ?thesis by (simp add: k_def zmod_int)
    qed
    moreover have "sha_len d2 = sha_len d + of_nat (length p)" "sha_is224 d2 = sha_is224 d"
      using d0 by (simp_all add: d2_def d1_def d0_def)
    ultimately show ?thesis
      using sha256_Write_rest_short [OF d2] by simp
  qed
qed

lemma sha256_inv_bounds:
  "sha256_inv d \<Longrightarrow> length (sha_x d) = 64 \<and> 0 \<le> sha_nx d \<and> sha_nx d < 64"
  by (simp add: sha256_inv_def)

lemma sha256_Write_inv:
  assumes "sha256_inv d"
  shows "\<exists>d'. sha256_Write f d p = Inr (d', int (length p), None)
            \<and> sha256_abs d' = absorb f (sha256_abs d) p
            \<and> sha256_inv d'
            \<and> sha_len d' = sha_len d + of_nat (length p)
            \<and> sha_is224 d' = sha_is224 d"
proof -
  from assms have b: "length (sha_x d) = 64" "0 \<le> sha_nx d" "sha_nx d < 64"
    by (simp_all add: sha256_inv_def)
  from sha256_Write_sim [OF b, of f p] obtain d' where
    d': "sha256_Write f d p = Inr (d', int (length p), None)"
        "sha256_abs d' = absorb f (sha256_abs d) p" "length (sha_x d') = 64"
        "sha_nx d' = (sha_nx d + int (length p)) mod 64"
        "sha_len d' = sha_len d + of_nat (length p)"
        "sha_is224 d' = sha_is224 d"
    by blast
  have "sha256_inv d'"
    using assms d'(3,4,5) by (simp add: sha256_inv_def uint_add_of_nat_mod_64)
  with d' show ?thesis by blast
qed

lemma pad_zeros_cases:
  fixes l :: uint64
  shows "unat l mod 64 < 56 \<Longrightarrow> pad_zeros l = 55 - unat l mod 64"
    and "\<not> unat l mod 64 < 56 \<Longrightarrow> pad_zeros l = 119 - unat l mod 64"
proof -
  define r where "r = unat l mod 64"
  define z where "z = pad_zeros l"
  have z: "z < 64" unfolding z_def pad_zeros_def by (rule pad_lt_64)
  have r: "r < 64" by (simp add: r_def)
  have "(unat l + 1 + z) mod 64 = 56"
    unfolding z_def pad_zeros_def by (rule pad_congruence)
  moreover have "(unat l mod 64 + (1 + z)) mod 64 = (unat l + (1 + z)) mod 64"
    by (rule mod_add_left_eq)
  ultimately have "(r + (1 + z)) mod 64 = 56"
    by (simp only: r_def add.assoc)
  then have c: "r + 1 + z = 56 \<or> r + 1 + z = 120"
    using z r by (cases "r + (1 + z) < 64") (auto simp add: mod_if split: if_splits)
  show "unat l mod 64 < 56 \<Longrightarrow> pad_zeros l = 55 - unat l mod 64"
    using c z unfolding r_def [symmetric] z_def [symmetric] by linarith
  show "\<not> unat l mod 64 < 56 \<Longrightarrow> pad_zeros l = 119 - unat l mod 64"
    using c z r unfolding r_def [symmetric] z_def [symmetric] by linarith
qed

lemma take_Cons_replicate:
  "n \<le> k \<Longrightarrow> take (Suc n) (a # replicate k z) = a # replicate n z"
  by (simp add: min_def)

lemma sha256_tmp: "(replicate 64 (0::byte))[0 := 0x80] = 0x80 # replicate 63 0"
  by (simp add: numeral_eq_Suc)

lemma sha256_padding1_eq:
  "sha256_padding1 l = Inr (0x80 # replicate (pad_zeros l) 0)"
proof -
  define r where "r = unat l mod 64"
  have r: "r < 64" by (simp add: r_def)
  have ur: "unat (l mod 64) = r" by (simp add: r_def unat_mod)
  show ?thesis
  proof (cases "l mod 64 < 56")
    case True
    then have lt: "r < 56" by (simp add: word_less_nat_alt ur)
    have "l mod 64 \<le> 56" using True by simp
    then have "uint (56 - l mod 64) = uint (56::uint64) - uint (l mod 64)"
      by (simp only: uint_minus_simple_alt [THEN iffD1])
    also have "uint (l mod 64) = int r" by (simp only: uint_nat ur)
    finally have u: "uint (56 - l mod 64) = int (56 - r)" using lt by simp
    have nn: "nat (56 - int r) = 56 - r" by simp
    have "56 - r = Suc (55 - r)" using lt by simp
    then have t: "take (56 - r) (0x80 # replicate 63 (0::byte)) = 0x80 # replicate (55 - r) 0"
      by (simp add: take_Cons_replicate)
    show ?thesis using True lt
      by (simp add: sha256_padding1_def sha256_tmp slice_to_def u t nn pad_zeros_cases(1) flip: r_def)
  next
    case False
    then have ge: "\<not> r < 56" by (simp add: word_less_nat_alt ur)
    have "unat (l mod 64) \<le> unat (120::uint64)" using r by (simp add: ur)
    then have "l mod 64 \<le> 120" by (simp only: word_le_nat_alt)
    then have "uint (120 - l mod 64) = uint (120::uint64) - uint (l mod 64)"
      by (simp only: uint_minus_simple_alt [THEN iffD1])
    also have "uint (l mod 64) = int r" by (simp only: uint_nat ur)
    finally have u: "uint (120 - l mod 64) = int (120 - r)" using r by simp
    have nn: "nat (120 - int r) = 120 - r" by simp
    have "120 - r = Suc (119 - r)" using r by simp
    then have t: "take (120 - r) (0x80 # replicate 63 (0::byte)) = 0x80 # replicate (119 - r) 0"
      using ge by (simp add: take_Cons_replicate)
    show ?thesis using False ge r
      by (simp add: sha256_padding1_def sha256_tmp slice_to_def u t nn pad_zeros_cases(2) flip: r_def)
  qed
qed

lemma sha256_padding2_eq: "sha256_padding2 l = Inr (be_bytes64 (push_bit 3 l))"
  by (simp add: sha256_padding2_def sha256_tmp BigEndian_PutUint64_def put_bytes_ok slice_to_def)

subsection \<open>SHA-256 finalization\<close>

lemma sha256_checkSum_eq:
  assumes "sha256_inv d"
  shows "\<exists>d'. sha256_checkSum f d
             = Inr (d', sha256_final f (sha_is224 d) (sha256_abs d) (sha_len d))
           \<and> sha_nx d' = 0 \<and> sha_is224 d' = sha_is224 d"
proof -
  define p1 where "p1 = 0x80 # replicate (pad_zeros (sha_len d)) (0::byte)"
  define p2 where "p2 = be_bytes64 (push_bit 3 (sha_len d))"
  from assms have b: "length (sha_x d) = 64" "0 \<le> sha_nx d" "sha_nx d < 64"
    and nx: "sha_nx d = uint (sha_len d) mod 64"
    by (simp_all add: sha256_inv_def)
  from sha256_Write_sim [OF b, of f p1] obtain d1 where
    d1: "sha256_Write f d p1 = Inr (d1, int (length p1), None)"
        "sha256_abs d1 = absorb f (sha256_abs d) p1"
        "length (sha_x d1) = 64"
        "sha_nx d1 = (sha_nx d + int (length p1)) mod 64"
        "sha_is224 d1 = sha_is224 d"
    by blast
  have b1: "0 \<le> sha_nx d1" "sha_nx d1 < 64" by (simp_all add: d1(4))
  from sha256_Write_sim [OF d1(3) b1, of f p2] obtain d2 where
    d2: "sha256_Write f d1 p2 = Inr (d2, int (length p2), None)"
        "sha256_abs d2 = absorb f (sha256_abs d1) p2"
        "sha_nx d2 = (sha_nx d1 + int (length p2)) mod 64"
        "sha_is224 d2 = sha_is224 d1"
    by blast
  have "sha_nx d2 = ((uint (sha_len d) mod 64 + int (length p1)) mod 64 + int (length p2)) mod 64"
    unfolding d2(3) d1(4) nx ..
  also have "\<dots> = (uint (sha_len d) mod 64 + (int (length p1) + int (length p2))) mod 64"
    by (simp only: mod_add_left_eq add.assoc)
  also have "int (length p1) + int (length p2) = int (9 + pad_zeros (sha_len d))"
    by (simp add: p1_def p2_def)
  finally have nx2: "sha_nx d2 = 0" by (simp only: pad_length_mod)
  have a2: "sha256_abs d2 = absorb f (sha256_abs d) (p1 @ p2)"
    by (simp only: d2(2) d1(2) absorb_absorb)
  have "sha_h d2 = fst (sha256_abs d2)" by (simp add: sha256_abs_def)
  then have h: "sha_h d2 = fst (absorb f (sha256_abs d) (p1 @ p2))" by (simp only: a2)
  obtain h0 h1 h2 h3 h4 h5 h6 h7 where
    t: "fst (absorb f (sha256_abs d) (p1 @ p2)) = (h0, h1, h2, h3, h4, h5, h6, h7)"
    by (metis surj_pair)
  have pp: "0x80 # replicate (pad_zeros (sha_len d)) 0 @ be_bytes64 (push_bit 3 (sha_len d)) = p1 @ p2"
    by (simp add: p1_def p2_def)
  have "sha256_checkSum f d
      = Inr (d2, sha256_final f (sha_is224 d) (sha256_abs d) (sha_len d))"
    unfolding sha256_final_def pp
    by (simp add: sha256_checkSum_def Let_def sha256_padding1_eq sha256_padding2_eq
        d1(1,5) d2(1,4) nx2 h t sha256_Size_def BigEndian_PutUint32_def put_bytes_ok
        flip: p1_def p2_def)
  with nx2 d2(4) d1(5) show ?thesis by simp
qed

lemma sha256_Sum_eq:
  "sha256_inv d \<Longrightarrow>
   sha256_Sum f d inp =
     Inr (d, inp @ (if sha_is224 d
                    then take 28 (sha256_final f True (sha256_abs d) (sha_len d))
                    else sha256_final f False (sha256_abs d) (sha_len d)))"
  using sha256_checkSum_eq [of d f] by (auto simp add: sha256_Sum_def sha256_Size224_def)

subsection \<open>SHA-256: serialization and call sequences\<close>

lemma length_sha256_magic [simp]: "length sha256_magic224 = 4" "length sha256_magic256 = 4"
  by (simp_all add: sha256_magic224_def sha256_magic256_def)

lemma length_sha256_magic' [simp]: "length (sha256_magic d) = 4"
  by (simp add: sha256_magic_def)

lemma sha256_MarshalBinary_eq:
  assumes "length (sha_x d) = 64" "0 \<le> sha_nx d" "sha_nx d \<le> 64"
  shows "sha256_MarshalBinary d = Inr (sha256_layout d, None)"
proof -
  obtain h0 h1 h2 h3 h4 h5 h6 h7 where s: "sha_h d = (h0, h1, h2, h3, h4, h5, h6, h7)"
    by (metis surj_pair)
  define n where "n = nat (sha_nx d)"
  have nx: "sha_nx d = int n" "n \<le> 64" using assms by (simp_all add: n_def)
  define bs where "bs = sha256_magic d @ be_bytes32 h0 @ be_bytes32 h1 @ be_bytes32 h2 @ be_bytes32 h3
        @ be_bytes32 h4 @ be_bytes32 h5 @ be_bytes32 h6 @ be_bytes32 h7 @ take n (sha_x d)"
  have lbs: "length bs = 36 + n" using assms nx by (simp add: bs_def)
  have ext: "int (length bs) + 64 - int n = int (length bs) + int (64 - n)" using nx by simp
  have "cslice_to (zslice bs (72 - n)) (int (length bs) + int (64 - n))
      = Inr (zslice (bs @ replicate (64 - n) 0) (72 - n - (64 - n)))"
    by (rule cslice_to_zslice) simp
  moreover have "72 - n - (64 - n) = 8" using nx by simp
  ultimately have c: "cslice_to (zslice bs (72 - n)) (int (length bs) + 64 - int n)
      = Inr (zslice (bs @ replicate (64 - n) 0) 8)"
    by (simp only: ext)
  have m: "(if sha_is224 d then go_append (zslice [] 108) sha256_magic224
            else go_append (zslice [] 108) sha256_magic256) = zslice (sha256_magic d) 104"
    by (simp add: go_append_zslice sha256_magic_def)
  have "sha256_MarshalBinary d = Inr (bs @ replicate (64 - n) 0 @ be_bytes64 (sha_len d), None)"
    using assms nx(2)
    by (simp add: sha256_MarshalBinary_def s sha256_marshaledSize_def sha256_chunk_def go_make_zslice
        m appendUint32_zslice appendUint64_zslice go_append_zslice slice_to_def nx(1) c
        flip: bs_def)
  then show ?thesis by (simp add: sha256_layout_def s bs_def n_def)
qed

lemma sha256_consumeUint32_eq:
  "4 \<le> length b \<Longrightarrow> sha256_consumeUint32 b = Inr (drop 4 b, be_word32 (take 4 b))"
  by (simp add: sha256_consumeUint32_def slice_from_def be_word32_def Let_def)

lemma sha256_consumeUint64_eq:
  "8 \<le> length b \<Longrightarrow> sha256_consumeUint64 b = Inr (drop 8 b, be_word64 (take 8 b))"
  by (simp add: sha256_consumeUint64_def slice_from_def be_word64_def Let_def)

lemma sha256_magic_distinct [simp]:
  "sha256_magic256 \<noteq> sha256_magic224" "sha256_magic224 \<noteq> sha256_magic256"
  by (simp_all add: sha256_magic224_def sha256_magic256_def)

lemma sha256_UnmarshalBinary_bad_magic:
  "take 4 b \<noteq> sha256_magic d \<Longrightarrow>
   sha256_UnmarshalBinary d b
     = Inr (d, Some (Error ''crypto/sha256: invalid hash state identifier''))"
  by (simp add: sha256_UnmarshalBinary_def slice_to_def sha256_magic_def split: if_splits)

lemma sha256_UnmarshalBinary_bad_size:
  assumes "take 4 b = sha256_magic d" "length b \<noteq> 108"
  shows "sha256_UnmarshalBinary d b
     = Inr (d, Some (Error ''crypto/sha256: invalid hash state size''))"
proof -
  have "4 \<le> length b" using assms(1) length_sha256_magic' [of d]
    by (metis length_take min.cobounded1 min.commute)
  then show ?thesis using assms
    by (simp add: sha256_UnmarshalBinary_def slice_to_def sha256_marshaledSize_def
        sha256_chunk_def sha256_magic_def split: if_splits)
qed

lemma sha256_UnmarshalBinary_ok:
  assumes "take 4 b = sha256_magic d" "length b = 108" "length (sha_x d) = 64"
  shows "sha256_UnmarshalBinary d b = Inr (sha256_import d b, None)"
  using assms
  by (simp add: sha256_UnmarshalBinary_def slice_to_def slice_from_def sha256_marshaledSize_def
      sha256_chunk_def sha256_consumeUint32_eq sha256_consumeUint64_eq go_copy_def Let_def
      sha256_import_def sha256_magic_def split: if_splits)

lemma sha256_inv_import:
  "length b = 108 \<Longrightarrow> sha256_inv (sha256_import d b)"
  by (simp add: sha256_inv_def sha256_import_def uint_mod)

lemma sha256_import_is224 [simp]: "sha_is224 (sha256_import d b) = sha_is224 d"
  by (simp add: sha256_import_def)

lemma sha256_inv_Reset: "length (sha_x d) = 64 \<Longrightarrow> sha256_inv (sha256_Reset d)"
  by (simp add: sha256_inv_def sha256_Reset_def Let_def)

lemma sha256_Reset_is224 [simp]: "sha_is224 (sha256_Reset d) = sha_is224 d"
  by (simp add: sha256_Reset_def Let_def)

lemma sha256_inv_New: "sha256_inv sha256_New" "sha256_inv sha256_New224"
  by (simp_all add: sha256_New_def sha256_New224_def sha256_zero_def sha256_inv_Reset)

lemma sha256_New_is224 [simp]: "\<not> sha_is224 sha256_New" "sha_is224 sha256_New224"
  by (simp_all add: sha256_New_def sha256_New224_def sha256_zero_def)

lemma sha256_UnmarshalBinary_inv:
  assumes "sha256_inv d"
  shows "\<exists>d' e. sha256_UnmarshalBinary d b = Inr (d', e) \<and> sha256_inv d'
            \<and> sha_is224 d' = sha_is224 d"
proof -
  have x: "length (sha_x d) = 64" using assms by (simp add: sha256_inv_def)
  consider "take 4 b \<noteq> sha256_magic d" | "take 4 b = sha256_magic d" "length b \<noteq> 108"
    | "take 4 b = sha256_magic d" "length b = 108" by blast
  then show ?thesis
  proof cases
    case 1 then show ?thesis using assms by (simp add: sha256_UnmarshalBinary_bad_magic)
  next
    case 2 then show ?thesis using assms by (simp add: sha256_UnmarshalBinary_bad_size)
  next
    case 3 then show ?thesis using x by (simp add: sha256_UnmarshalBinary_ok sha256_inv_import)
  qed
qed

lemma sha256_call_inv:
  assumes "sha256_inv d"
  shows "\<exists>d'. sha256_call f d c = Inr d' \<and> sha256_inv d' \<and> sha_is224 d' = sha_is224 d"
proof (cases c)
  case (Call_Write p)
  then show ?thesis using sha256_Write_inv [OF assms, of f p] by auto
next
  case Call_Reset
  then show ?thesis using assms sha256_inv_Reset [of d] by (simp add: sha256_inv_def)
next
  case (Call_Sum inp)
  then show ?thesis using assms by (simp add: sha256_Sum_eq)
next
  case Call_MarshalBinary
  then show ?thesis using assms sha256_MarshalBinary_eq [of d]
    by (simp add: sha256_inv_def)
next
  case (Call_UnmarshalBinary b)
  then show ?thesis using sha256_UnmarshalBinary_inv [OF assms, of b] by auto
qed

lemma sha256_calls_inv:
  "sha256_inv d \<Longrightarrow>
   \<exists>d'. sha256_calls f d cs = Inr d' \<and> sha256_inv d' \<and> sha_is224 d' = sha_is224 d"
proof (induction cs arbitrary: d)
  case Nil
  then show ?case by simp
next
  case (Cons c cs)
  from sha256_call_inv [OF Cons.prems, of f c] obtain d1 where
    "sha256_call f d c = Inr d1" "sha256_inv d1" "sha_is224 d1 = sha_is224 d" by blast
  with Cons.IH [of d1] show ?case by simp
qed

lemma sha256_calls_append:
  "sha256_calls f d (cs @ cs') = bindP (sha256_calls f d cs) (\<lambda>d. sha256_calls f d cs')"
proof (induction cs arbitrary: d)
  case Nil
  then show ?case by simp
next
  case (Cons c cs)
  then show ?case by (cases "sha256_call f d c") simp_all
qed

lemma sha256_writes_abs:
  assumes "sha256_inv d"
  shows "\<exists>d'. sha256_calls f d (map Call_Write ps) = Inr d' \<and> sha256_inv d'
            \<and> sha256_abs d' = absorb f (sha256_abs d) (concat ps)
            \<and> sha_len d' = sha_len d + of_nat (length (concat ps))
            \<and> sha_is224 d' = sha_is224 d"
  using assms
proof (induction ps arbitrary: d)
  case Nil
  then have "length (snd (sha256_abs d)) < 64" by (simp add: sha256_abs_def sha256_inv_def)
  with Nil show ?case by simp
next
  case (Cons p ps)
  from sha256_Write_inv [OF Cons.prems, of f p] obtain d1 where
    d1: "sha256_Write f d p = Inr (d1, int (length p), None)"
        "sha256_abs d1 = absorb f (sha256_abs d) p" "sha256_inv d1"
        "sha_len d1 = sha_len d + of_nat (length p)" "sha_is224 d1 = sha_is224 d" by blast
  from Cons.IH [OF d1(3)] obtain d' where
    d': "sha256_calls f d1 (map Call_Write ps) = Inr d'" "sha256_inv d'"
        "sha256_abs d' = absorb f (sha256_abs d1) (concat ps)"
        "sha_len d' = sha_len d1 + of_nat (length (concat ps))"
        "sha_is224 d' = sha_is224 d1" by blast
  have "sha256_calls f d (map Call_Write (p # ps)) = Inr d'"
    by (simp add: d1(1) d'(1))
  moreover have "sha256_abs d' = absorb f (sha256_abs d) (concat (p # ps))"
    by (simp add: d'(3) d1(2) absorb_absorb)
  moreover have "sha_len d' = sha_len d + of_nat (length (concat (p # ps)))"
    by (simp add: d'(4) d1(4))
  ultimately show ?case using d'(2,5) d1(5) by simp
qed

subsection \<open>Claims C7 and C8\<close>

lemma md5_New_fields [simp]: "md5_len md5_New = 0" "md5_abs md5_New = (md5_s md5_New, [])"
  by (simp_all add: md5_New_def md5_Reset_def md5_abs_def)

lemma sha256_New_fields [simp]:
  "sha_len sha256_New = 0" "sha256_abs sha256_New = (sha_h sha256_New, [])"
  "sha_len sha256_New224 = 0" "sha256_abs sha256_New224 = (sha_h sha256_New224, [])"
  by (simp_all add: sha256_New_def sha256_New224_def sha256_Reset_def sha256_abs_def Let_def)

lemma md5_inv_nx: "md5_inv d \<Longrightarrow> md5_nx d = uint (md5_len d) mod 64 \<and> 0 \<le> md5_nx d \<and> md5_nx d < 64"
  by (simp add: md5_inv_def)

lemma sha256_inv_nx:
  "sha256_inv d \<Longrightarrow> sha_nx d = uint (sha_len d) mod 64 \<and> 0 \<le> sha_nx d \<and> sha_nx d < 64"
  by (simp add: sha256_inv_def)

lemma uint_of_nat_mod_64: "uint (of_nat n :: uint64) mod 64 = int (n mod 64)"
  using uint_add_of_nat_mod_64 [of 0 n] by (simp add: zmod_int)

lemma md5_reachable_fill:
  "\<exists>d. md5_calls f md5_New cs = Inr d
       \<and> md5_nx d = uint (md5_len d) mod 64 \<and> 0 \<le> md5_nx d \<and> md5_nx d < 64"
  using md5_calls_inv [OF md5_inv_New, of f cs] md5_inv_nx by blast

lemma md5_written_fill:
  "\<exists>d. md5_calls f md5_New (cs @ Call_Reset # map Call_Write ps) = Inr d
       \<and> md5_len d = of_nat (length (concat ps))
       \<and> md5_nx d = int (length (concat ps) mod 64)"
proof -
  from md5_calls_inv [OF md5_inv_New, of f cs] obtain d0 where
    d0: "md5_calls f md5_New cs = Inr d0" "md5_inv d0" by blast
  have r: "md5_inv (md5_Reset d0)" "md5_len (md5_Reset d0) = 0"
    using d0(2) by (simp_all add: md5_inv_Reset md5_inv_def md5_Reset_def)
  from md5_writes_abs [OF r(1), of f ps] obtain d where
    d: "md5_calls f (md5_Reset d0) (map Call_Write ps) = Inr d" "md5_inv d"
       "md5_len d = md5_len (md5_Reset d0) + of_nat (length (concat ps))" by blast
  have "md5_calls f md5_New (cs @ Call_Reset # map Call_Write ps) = Inr d"
    by (simp add: md5_calls_append d0(1) d(1))
  moreover have "md5_len d = of_nat (length (concat ps))" using d(3) r(2) by simp
  moreover have "md5_nx d = int (length (concat ps) mod 64)"
    using md5_inv_nx [OF d(2)] by (simp add: \<open>md5_len d = of_nat (length (concat ps))\<close> uint_of_nat_mod_64)
  ultimately show ?thesis by blast
qed

lemma sha256_reachable_fill:
  assumes "sha256_inv d0"
  shows "\<exists>d. sha256_calls f d0 cs = Inr d
       \<and> sha_nx d = uint (sha_len d) mod 64 \<and> 0 \<le> sha_nx d \<and> sha_nx d < 64"
  using sha256_calls_inv [OF assms, of f cs] sha256_inv_nx by blast

lemma sha256_written_fill:
  assumes "sha256_inv d00"
  shows "\<exists>d. sha256_calls f d00 (cs @ Call_Reset # map Call_Write ps) = Inr d
       \<and> sha_len d = of_nat (length (concat ps))
       \<and> sha_nx d = int (length (concat ps) mod 64)"
proof -
  from sha256_calls_inv [OF assms, of f cs] obtain d0 where
    d0: "sha256_calls f d00 cs = Inr d0" "sha256_inv d0" by blast
  have r: "sha256_inv (sha256_Reset d0)" "sha_len (sha256_Reset d0) = 0"
    using d0(2) by (simp_all add: sha256_inv_Reset sha256_inv_def sha256_Reset_def Let_def)
  from sha256_writes_abs [OF r(1), of f ps] obtain d where
    d: "sha256_calls f (sha256_Reset d0) (map Call_Write ps) = Inr d" "sha256_inv d"
       "sha_len d = sha_len (sha256_Reset d0) + of_nat (length (concat ps))" by blast
  have "sha256_calls f d00 (cs @ Call_Reset # map Call_Write ps) = Inr d"
    by (simp add: sha256_calls_append d0(1) d(1))
  moreover have "sha_len d = of_nat (length (concat ps))" using d(3) r(2) by simp
  moreover have "sha_nx d = int (length (concat ps) mod 64)"
    using sha256_inv_nx [OF d(2)] by (simp add: \<open>sha_len d = of_nat (length (concat ps))\<close> uint_of_nat_mod_64)
  ultimately show ?thesis by blast
qed

lemma md5_fresh_written_fill:
  "\<exists>d. md5_calls f md5_New (map Call_Write ps) = Inr d
       \<and> md5_len d = of_nat (length (concat ps))
       \<and> md5_nx d = int (length (concat ps) mod 64)"
proof -
  from md5_writes_abs [OF md5_inv_New, of f ps] obtain d where
    d: "md5_calls f md5_New (map Call_Write ps) = Inr d" "md5_inv d"
       "md5_len d = md5_len md5_New + of_nat (length (concat ps))" by blast
  have l: "md5_len d = of_nat (length (concat ps))" using d(3) by simp
  have "md5_nx d = int (length (concat ps) mod 64)"
    using md5_inv_nx [OF d(2)] by (simp add: l uint_of_nat_mod_64)
  with d(1) l show ?thesis by blast
qed

lemma sha256_fresh_written_fill:
  assumes "sha256_inv d0" "sha_len d0 = 0"
  shows "\<exists>d. sha256_calls f d0 (map Call_Write ps) = Inr d
       \<and> sha_len d = of_nat (length (concat ps))
       \<and> sha_nx d = int (length (concat ps) mod 64)"
proof -
  from sha256_writes_abs [OF assms(1), of f ps] obtain d where
    d: "sha256_calls f d0 (map Call_Write ps) = Inr d" "sha256_inv d"
       "sha_len d = sha_len d0 + of_nat (length (concat ps))" by blast
  have l: "sha_len d = of_nat (length (concat ps))" using d(3) assms(2) by simp
  have "sha_nx d = int (length (concat ps) mod 64)"
    using sha256_inv_nx [OF d(2)] by (simp add: l uint_of_nat_mod_64)
  with d(1) l show ?thesis by blast
qed

text \<open>
  C7 (buffer-fill invariant). After any sequence of calls on a fresh MD5, SHA-256 or
  SHA-224 instance (writes, resets, sums, exports, imports that succeed or fail), the
  fill count \<open>nx\<close> equals the byte count \<open>len\<close> modulo 64 and lies in \<open>0 \<le> nx < 64\<close>.
  After writes on a fresh instance, and after any calls that end with a reset followed
  by writes, \<open>len\<close> is the number of bytes written (since the reset, as a 64-bit count)
  and \<open>nx\<close> is that number modulo 64.
\<close>

theorem C7_buffer_fill_invariant:
  "(\<exists>d. md5_calls f md5_New cs = Inr d
       \<and> md5_nx d = uint (md5_len d) mod 64 \<and> 0 \<le> md5_nx d \<and> md5_nx d < 64)
   \<and> (\<exists>d. sha256_calls g sha256_New cs = Inr d
       \<and> sha_nx d = uint (sha_len d) mod 64 \<and> 0 \<le> sha_nx d \<and> sha_nx d < 64)
   \<and> (\<exists>d. sha256_calls g sha256_New224 cs = Inr d
       \<and> sha_nx d = uint (sha_len d) mod 64 \<and> 0 \<le> sha_nx d \<and> sha_nx d < 64)
   \<and> (\<exists>d. md5_calls f md5_New (map Call_Write ps) = Inr d
       \<and> md5_len d = of_nat (length (concat ps))
       \<and> md5_nx d = int (length (concat ps) mod 64))
   \<and> (\<exists>d. sha256_calls g sha256_New (map Call_Write ps) = Inr d
       \<and> sha_len d = of_nat (length (concat ps))
       \<and> sha_nx d = int (length (concat ps) mod 64))
   \<and> (\<exists>d. sha256_calls g sha256_New224 (map Call_Write ps) = Inr d
       \<and> sha_len d = of_nat (length (concat ps))
       \<and> sha_nx d = int (length (concat ps) mod 64))
   \<and> (\<exists>d. md5_calls f md5_New (cs @ Call_Reset # map Call_Write ps) = Inr d
       \<and> md5_len d = of_nat (length (concat ps))
       \<and> md5_nx d = int (length (concat ps) mod 64))
   \<and> (\<exists>d. sha256_calls g sha256_New (cs @ Call_Reset # map Call_Write ps) = Inr d
       \<and> sha_len d = of_nat (length (concat ps))
       \<and> sha_nx d = int (length (concat ps) mod 64))
   \<and> (\<exists>d. sha256_calls g sha256_New224 (cs @ Call_Reset # map Call_Write ps) = Inr d
       \<and> sha_len d = of_nat (length (concat ps))
       \<and> sha_nx d = int (length (concat ps) mod 64))"
  using md5_reachable_fill [of f cs] md5_written_fill [of f cs ps]
    md5_fresh_written_fill [of f ps]
    sha256_reachable_fill [OF sha256_inv_New(1), of g cs]
    sha256_reachable_fill [OF sha256_inv_New(2), of g cs]
    sha256_fresh_written_fill [OF sha256_inv_New(1) sha256_New_fields(1), of g ps]
    sha256_fresh_written_fill [OF sha256_inv_New(2) sha256_New_fields(3), of g ps]
    sha256_written_fill [OF sha256_inv_New(1), of g cs ps]
    sha256_written_fill [OF sha256_inv_New(2), of g cs ps]
  by (intro conjI)

lemma md5_reachable_checkSum:
  "\<exists>d d' h. md5_calls f md5_New cs = Inr d \<and> md5_checkSum f d = Inr (d', h) \<and> md5_nx d' = 0"
proof -
  from md5_calls_inv [OF md5_inv_New, of f cs] obtain d where
    d: "md5_calls f md5_New cs = Inr d" "md5_inv d" by blast
  from md5_checkSum_eq [OF d(2), of f] d(1) show ?thesis by blast
qed

lemma sha256_reachable_checkSum:
  assumes "sha256_inv d0"
  shows "\<exists>d d' h. sha256_calls f d0 cs = Inr d \<and> sha256_checkSum f d = Inr (d', h) \<and> sha_nx d' = 0"
proof -
  from sha256_calls_inv [OF assms, of f cs] obtain d where
    d: "sha256_calls f d0 cs = Inr d" "sha256_inv d" by blast
  from sha256_checkSum_eq [OF d(2), of f] d(1) show ?thesis by blast
qed

text \<open>
  C8 (the finalization panic is unreachable). After any sequence of calls on a fresh
  MD5, SHA-256 or SHA-224 instance, \<^verbatim>\<open>checkSum\<close> returns normally: it does not reach
  \<^verbatim>\<open>panic("d.nx != 0")\<close> (nor any other panic), and the instance it has written the
  padding to has fill count 0.
\<close>

theorem C8_checkSum_never_panics:
  "(\<exists>d d' h. md5_calls f md5_New cs = Inr d \<and> md5_checkSum f d = Inr (d', h) \<and> md5_nx d' = 0)
   \<and> (\<exists>d d' h. sha256_calls g sha256_New cs = Inr d
          \<and> sha256_checkSum g d = Inr (d', h) \<and> sha_nx d' = 0)
   \<and> (\<exists>d d' h. sha256_calls g sha256_New224 cs = Inr d
          \<and> sha256_checkSum g d = Inr (d', h) \<and> sha_nx d' = 0)"
  using md5_reachable_checkSum [of f cs]
    sha256_reachable_checkSum [OF sha256_inv_New(1), of g cs]
    sha256_reachable_checkSum [OF sha256_inv_New(2), of g cs]
  by (intro conjI)

subsection \<open>Claims C5, C9 and C10\<close>

lemma md5_UnmarshalBinary_cases:
  assumes "length (md5_x d) = 64"
  shows "md5_UnmarshalBinary d b =
     (if take 4 b \<noteq> md5_magic
      then Inr (d, Some (Error ''crypto/md5: invalid hash state identifier''))
      else if length b \<noteq> 92
      then Inr (d, Some (Error ''crypto/md5: invalid hash state size''))
      else Inr (md5_import d b, None))"
  using assms
  by (simp add: md5_UnmarshalBinary_bad_magic md5_UnmarshalBinary_bad_size md5_UnmarshalBinary_ok)

lemma sha256_UnmarshalBinary_cases:
  assumes "length (sha_x d) = 64"
  shows "sha256_UnmarshalBinary d b =
     (if take 4 b \<noteq> sha256_magic d
      then Inr (d, Some (Error ''crypto/sha256: invalid hash state identifier''))
      else if length b \<noteq> 108
      then Inr (d, Some (Error ''crypto/sha256: invalid hash state size''))
      else Inr (sha256_import d b, None))"
  using assms
  by (simp add: sha256_UnmarshalBinary_bad_magic sha256_UnmarshalBinary_bad_size
      sha256_UnmarshalBinary_ok)

lemma take4_sha256_layout: "take 4 (sha256_layout d) = sha256_magic d"
proof -
  obtain h0 h1 h2 h3 h4 h5 h6 h7 where "sha_h d = (h0, h1, h2, h3, h4, h5, h6, h7)"
    by (metis surj_pair)
  then show ?thesis by (simp add: sha256_layout_def)
qed

lemma take4_md5_layout: "take 4 (md5_layout d) = md5_magic"
proof -
  obtain s0 s1 s2 s3 where "md5_s d = (s0, s1, s2, s3)" by (metis surj_pair)
  then show ?thesis by (simp add: md5_layout_def)
qed

lemma md5_taxonomy:
  "\<exists>d. md5_calls f md5_New cs = Inr d
     \<and> md5_UnmarshalBinary d b =
         (if take 4 b \<noteq> md5_magic
          then Inr (d, Some (Error ''crypto/md5: invalid hash state identifier''))
          else if length b \<noteq> 92
          then Inr (d, Some (Error ''crypto/md5: invalid hash state size''))
          else Inr (md5_import d b, None))
     \<and> (\<exists>d'. md5_Write f d p = Inr (d', int (length p), None))
     \<and> (\<exists>out. md5_Sum f d inp = Inr (d, out))"
proof -
  from md5_calls_inv [OF md5_inv_New, of f cs] obtain d where
    d: "md5_calls f md5_New cs = Inr d" "md5_inv d" by blast
  have "length (md5_x d) = 64" using d(2) by (simp add: md5_inv_def)
  from md5_UnmarshalBinary_cases [OF this, of b] md5_Write_inv [OF d(2), of f p]
    md5_Sum_eq [OF d(2), of f inp] d(1)
  show ?thesis by blast
qed

lemma sha256_taxonomy:
  assumes "sha256_inv d0"
  shows "\<exists>d. sha256_calls f d0 cs = Inr d
     \<and> sha256_UnmarshalBinary d b =
         (if take 4 b \<noteq> (if sha_is224 d0 then sha256_magic224 else sha256_magic256)
          then Inr (d, Some (Error ''crypto/sha256: invalid hash state identifier''))
          else if length b \<noteq> 108
          then Inr (d, Some (Error ''crypto/sha256: invalid hash state size''))
          else Inr (sha256_import d b, None))
     \<and> (\<exists>d'. sha256_Write f d p = Inr (d', int (length p), None))
     \<and> (\<exists>out. sha256_Sum f d inp = Inr (d, out))"
proof -
  from sha256_calls_inv [OF assms, of f cs] obtain d where
    d: "sha256_calls f d0 cs = Inr d" "sha256_inv d" "sha_is224 d = sha_is224 d0" by blast
  have "length (sha_x d) = 64" using d(2) by (simp add: sha256_inv_def)
  from sha256_UnmarshalBinary_cases [OF this, of b] sha256_Write_inv [OF d(2), of f p]
    sha256_Sum_eq [OF d(2), of f inp] d(1,3)
  show ?thesis unfolding sha256_magic_def by auto
qed

lemma sha256_cross_variant:
  "\<exists>d4 d6 b4 b6. sha256_calls g sha256_New224 cs = Inr d4
      \<and> sha256_calls g sha256_New cs' = Inr d6
      \<and> sha256_MarshalBinary d4 = Inr (b4, None)
      \<and> sha256_MarshalBinary d6 = Inr (b6, None)
      \<and> sha256_UnmarshalBinary d6 b4
          = Inr (d6, Some (Error ''crypto/sha256: invalid hash state identifier''))
      \<and> sha256_UnmarshalBinary d4 b6
          = Inr (d4, Some (Error ''crypto/sha256: invalid hash state identifier''))"
proof -
  from sha256_calls_inv [OF sha256_inv_New(2), of g cs] obtain d4 where
    d4: "sha256_calls g sha256_New224 cs = Inr d4" "sha256_inv d4" "sha_is224 d4" by auto
  from sha256_calls_inv [OF sha256_inv_New(1), of g cs'] obtain d6 where
    d6: "sha256_calls g sha256_New cs' = Inr d6" "sha256_inv d6" "\<not> sha_is224 d6" by auto
  have m4: "sha256_MarshalBinary d4 = Inr (sha256_layout d4, None)"
    using d4(2) by (intro sha256_MarshalBinary_eq) (simp_all add: sha256_inv_def)
  have m6: "sha256_MarshalBinary d6 = Inr (sha256_layout d6, None)"
    using d6(2) by (intro sha256_MarshalBinary_eq) (simp_all add: sha256_inv_def)
  have "take 4 (sha256_layout d4) \<noteq> sha256_magic d6"
    using d4(3) d6(3) by (simp add: take4_sha256_layout sha256_magic_def)
  then have u64: "sha256_UnmarshalBinary d6 (sha256_layout d4)
          = Inr (d6, Some (Error ''crypto/sha256: invalid hash state identifier''))"
    by (rule sha256_UnmarshalBinary_bad_magic)
  have "take 4 (sha256_layout d6) \<noteq> sha256_magic d4"
    using d4(3) d6(3) by (simp add: take4_sha256_layout sha256_magic_def)
  then have u46: "sha256_UnmarshalBinary d4 (sha256_layout d6)
          = Inr (d4, Some (Error ''crypto/sha256: invalid hash state identifier''))"
    by (rule sha256_UnmarshalBinary_bad_magic)
  from d4(1) d6(1) m4 m6 u64 u46 show ?thesis by blast
qed

text \<open>
  C5 (import error taxonomy). For an instance reached by any sequence of calls on a
  fresh one and every byte sequence \<open>b\<close>: \<^verbatim>\<open>UnmarshalBinary\<close> returns the
  ``invalid hash state identifier'' error exactly when the first four bytes of \<open>b\<close> are
  not the magic tag of the instance's algorithm and variant (a shorter \<open>b\<close> has no
  such tag); it returns the ``invalid hash state size'' error when the tag matches and
  the length is not the marshaled size (92 for MD5, 108 for SHA-224/256); otherwise it
  returns \<open>nil\<close>. The two errors differ. A SHA-224 export is refused by a SHA-256
  instance with the identifier error, and conversely. \<^verbatim>\<open>Write\<close> and \<^verbatim>\<open>Sum\<close>
  return normally on every such instance, \<^verbatim>\<open>Write\<close> with \<open>nn = len(p)\<close> and a
  \<open>nil\<close> error.
\<close>

theorem C5_import_error_taxonomy:
  "(\<exists>d. md5_calls f md5_New cs = Inr d
     \<and> md5_UnmarshalBinary d b =
         (if take 4 b \<noteq> md5_magic
          then Inr (d, Some (Error ''crypto/md5: invalid hash state identifier''))
          else if length b \<noteq> 92
          then Inr (d, Some (Error ''crypto/md5: invalid hash state size''))
          else Inr (md5_import d b, None))
     \<and> (\<exists>d'. md5_Write f d p = Inr (d', int (length p), None))
     \<and> (\<exists>out. md5_Sum f d inp = Inr (d, out)))
   \<and> (\<exists>d. sha256_calls g sha256_New cs = Inr d
     \<and> sha256_UnmarshalBinary d b =
         (if take 4 b \<noteq> sha256_magic256
          then Inr (d, Some (Error ''crypto/sha256: invalid hash state identifier''))
          else if length b \<noteq> 108
          then Inr (d, Some (Error ''crypto/sha256: invalid hash state size''))
          else Inr (sha256_import d b, None))
     \<and> (\<exists>d'. sha256_Write g d p = Inr (d', int (length p), None))
     \<and> (\<exists>out. sha256_Sum g d inp = Inr (d, out)))
   \<and> (\<exists>d. sha256_calls g sha256_New224 cs = Inr d
     \<and> sha256_UnmarshalBinary d b =
         (if take 4 b \<noteq> sha256_magic224
          then Inr (d, Some (Error ''crypto/sha256: invalid hash state identifier''))
          else if length b \<noteq> 108
          then Inr (d, Some (Error ''crypto/sha256: invalid hash state size''))
          else Inr (sha256_import d b, None))
     \<and> (\<exists>d'. sha256_Write g d p = Inr (d', int (length p), None))
     \<and> (\<exists>out. sha256_Sum g d inp = Inr (d, out)))
   \<and> (\<exists>d4 d6 b4 b6. sha256_calls g sha256_New224 cs = Inr d4
      \<and> sha256_calls g sha256_New cs' = Inr d6
      \<and> sha256_MarshalBinary d4 = Inr (b4, None)
      \<and> sha256_MarshalBinary d6 = Inr (b6, None)
      \<and> sha256_UnmarshalBinary d6 b4
          = Inr (d6, Some (Error ''crypto/sha256: invalid hash state identifier''))
      \<and> sha256_UnmarshalBinary d4 b6
          = Inr (d4, Some (Error ''crypto/sha256: invalid hash state identifier'')))
   \<and> Error ''crypto/md5: invalid hash state identifier''
        \<noteq> Error ''crypto/md5: invalid hash state size''
   \<and> Error ''crypto/sha256: invalid hash state identifier''
        \<noteq> Error ''crypto/sha256: invalid hash state size''"
proof (intro conjI)
  show "Error ''crypto/md5: invalid hash state identifier''
        \<noteq> Error ''crypto/md5: invalid hash state size''" by simp
  show "Error ''crypto/sha256: invalid hash state identifier''
        \<noteq> Error ''crypto/sha256: invalid hash state size''" by simp
qed (use md5_taxonomy [of f cs b p inp]
      sha256_taxonomy [OF sha256_inv_New(1), of g cs b p inp]
      sha256_taxonomy [OF sha256_inv_New(2), of g cs b p inp]
      sha256_cross_variant [of g cs cs'] in simp_all)

lemma md5_UnmarshalBinary_short:
  "length b < 4 \<Longrightarrow>
   md5_UnmarshalBinary d b = Inr (d, Some (Error ''crypto/md5: invalid hash state identifier''))"
  by (simp add: md5_UnmarshalBinary_def)

lemma sha256_UnmarshalBinary_short:
  "length b < 4 \<Longrightarrow>
   sha256_UnmarshalBinary d b
     = Inr (d, Some (Error ''crypto/sha256: invalid hash state identifier''))"
  by (simp add: sha256_UnmarshalBinary_def)

lemma md5_UnmarshalBinary_total:
  "length (md5_x d) = 64 \<Longrightarrow> \<exists>d' e. md5_UnmarshalBinary d b = Inr (d', e)"
  by (simp add: md5_UnmarshalBinary_cases)

lemma sha256_UnmarshalBinary_total:
  "length (sha_x d) = 64 \<Longrightarrow> \<exists>d' e. sha256_UnmarshalBinary d b = Inr (d', e)"
  by (simp add: sha256_UnmarshalBinary_cases)

text \<open>
  C9 (import totality). For every instance (its buffer \<open>x\<close> an array of 64 bytes, as the
  Go type has it) and every byte sequence \<open>b\<close>, \<^verbatim>\<open>UnmarshalBinary\<close> returns
  normally, with \<open>nil\<close> or an error: no slice expression or index in it is out of
  range. A \<open>b\<close> shorter than the four-byte magic tag, the empty one included, gets the
  identifier error, whatever the instance.
\<close>

theorem C9_import_total:
  "(length (md5_x d) = 64 \<longrightarrow> (\<exists>d' e. md5_UnmarshalBinary d b = Inr (d', e)))
   \<and> (length (sha_x h) = 64 \<longrightarrow> (\<exists>h' e. sha256_UnmarshalBinary h b = Inr (h', e)))
   \<and> (length b < 4 \<longrightarrow>
        md5_UnmarshalBinary d b
          = Inr (d, Some (Error ''crypto/md5: invalid hash state identifier''))
        \<and> sha256_UnmarshalBinary h b
          = Inr (h, Some (Error ''crypto/sha256: invalid hash state identifier'')))"
  using md5_UnmarshalBinary_total [of d b] sha256_UnmarshalBinary_total [of h b]
    md5_UnmarshalBinary_short [of b d] sha256_UnmarshalBinary_short [of b h]
  by blast

theorem C9_import_total_witness:
  "length (md5_x md5_New) = 64
   \<and> (\<exists>d' e. md5_UnmarshalBinary md5_New [0x6D, 0x64] = Inr (d', e))
   \<and> length (sha_x sha256_New224) = 64
   \<and> (\<exists>h' e. sha256_UnmarshalBinary sha256_New224 [0x6D, 0x64] = Inr (h', e))
   \<and> length [0x6D, 0x64 :: byte] < 4
   \<and> md5_UnmarshalBinary md5_New [0x6D, 0x64]
        = Inr (md5_New, Some (Error ''crypto/md5: invalid hash state identifier''))
   \<and> sha256_UnmarshalBinary sha256_New224 [0x6D, 0x64]
        = Inr (sha256_New224, Some (Error ''crypto/sha256: invalid hash state identifier''))"
  using C9_import_total [of md5_New "[0x6D, 0x64]" sha256_New224]
  by (simp add: md5_New_def md5_Reset_def md5_zero_def sha256_New224_def sha256_Reset_def
      sha256_zero_def Let_def)

lemma md5_UnmarshalBinary_atomic:
  "length (md5_x d) = 64 \<Longrightarrow> md5_UnmarshalBinary d b = Inr (d', Some e) \<Longrightarrow> d' = d"
  by (simp add: md5_UnmarshalBinary_cases split: if_splits)

lemma sha256_UnmarshalBinary_atomic:
  "length (sha_x d) = 64 \<Longrightarrow> sha256_UnmarshalBinary d b = Inr (d', Some e) \<Longrightarrow> d' = d"
  by (simp add: sha256_UnmarshalBinary_cases split: if_splits)

text \<open>
  C10 (import atomicity). Whenever \<^verbatim>\<open>UnmarshalBinary\<close> returns an error, the instance
  after the call is the instance before it: state words, buffer, fill count, byte count
  (and variant flag) are unchanged. For every instance with its 64-byte buffer and
  every byte sequence.
\<close>

theorem C10_import_atomic:
  "(length (md5_x d) = 64 \<and> md5_UnmarshalBinary d b = Inr (d', Some e) \<longrightarrow> d' = d)
   \<and> (length (sha_x h) = 64 \<and> sha256_UnmarshalBinary h c = Inr (h', Some e') \<longrightarrow> h' = h)"
  using md5_UnmarshalBinary_atomic [of d b d' e] sha256_UnmarshalBinary_atomic [of h c h' e']
  by blast

theorem C10_import_atomic_witness:
  "length (md5_x (md5_New\<lparr>md5_x := [1, 2, 3] @ replicate 61 0, md5_nx := 3, md5_len := 3\<rparr>)) = 64
   \<and> md5_UnmarshalBinary (md5_New\<lparr>md5_x := [1, 2, 3] @ replicate 61 0, md5_nx := 3, md5_len := 3\<rparr>)
         [0x6D, 0x64, 0x35, 0x01, 0]
       = Inr (md5_New\<lparr>md5_x := [1, 2, 3] @ replicate 61 0, md5_nx := 3, md5_len := 3\<rparr>,
              Some (Error ''crypto/md5: invalid hash state size''))
   \<and> length (sha_x (sha256_New\<lparr>sha_x := [1, 2, 3] @ replicate 61 0, sha_nx := 3, sha_len := 3\<rparr>)) = 64
   \<and> sha256_UnmarshalBinary
         (sha256_New\<lparr>sha_x := [1, 2, 3] @ replicate 61 0, sha_nx := 3, sha_len := 3\<rparr>)
         [0x73, 0x68, 0x61, 0x02, 0]
       = Inr (sha256_New\<lparr>sha_x := [1, 2, 3] @ replicate 61 0, sha_nx := 3, sha_len := 3\<rparr>,
              Some (Error ''crypto/sha256: invalid hash state identifier''))"
  using C10_import_atomic
    [of "md5_New\<lparr>md5_x := [1, 2, 3] @ replicate 61 0, md5_nx := 3, md5_len := 3\<rparr>"
        "[0x6D, 0x64, 0x35, 0x01, 0]"
        "md5_New\<lparr>md5_x := [1, 2, 3] @ replicate 61 0, md5_nx := 3, md5_len := 3\<rparr>"
        "Error ''crypto/md5: invalid hash state size''"
        "sha256_New\<lparr>sha_x := [1, 2, 3] @ replicate 61 0, sha_nx := 3, sha_len := 3\<rparr>"
        "[0x73, 0x68, 0x61, 0x02, 0]"
        "sha256_New\<lparr>sha_x := [1, 2, 3] @ replicate 61 0, sha_nx := 3, sha_len := 3\<rparr>"
        "Error ''crypto/sha256: invalid hash state identifier''"]
  by (simp add: md5_UnmarshalBinary_def sha256_UnmarshalBinary_def slice_to_def md5_magic_def
      sha256_magic224_def sha256_magic256_def md5_marshaledSize_def md5_BlockSize_def
      sha256_New_def sha256_Reset_def sha256_zero_def Let_def)

subsection \<open>Claims C3 and C6\<close>

lemma unat_drop_bit_div: "unat (drop_bit k (v::'a::len word)) = unat v div 2 ^ k"
  using unat_drop_bit_eq [of k v] drop_bit_eq_div [of k "unat v"] by (rule trans)

lemma unat_ucast_byte: "unat (ucast (w::'a::len word) :: byte) = unat w mod 256"
  by (simp add: unsigned_ucast_eq unsigned_take_bit_eq take_bit_eq_mod)

lemma digit_step: "(n::nat) div 2 ^ k mod 256 + 256 * (n div 2 ^ (k + 8)) = n div 2 ^ k"
proof -
  have "n div 2 ^ (k + 8) = n div 2 ^ k div 256"
    by (simp add: power_add div_mult2_eq)
  then show ?thesis by (simp add: mod_mult_div_eq)
qed

lemma digits4:
  fixes n :: nat
  assumes "n < 2 ^ 32"
  shows "n mod 256 + 256 * (n div 2 ^ 8 mod 256 + 256 * (n div 2 ^ 16 mod 256
           + 256 * (n div 2 ^ 24 mod 256))) = n"
proof -
  have "n div 2 ^ 24 < 256" using assms by (simp add: less_mult_imp_div_less)
  then have "n div 2 ^ 24 mod 256 = n div 2 ^ 24" by simp
  then show ?thesis
    using digit_step [of n 16] digit_step [of n 8] digit_step [of n 0] by simp
qed

lemma digits8:
  fixes n :: nat
  assumes "n < 2 ^ 64"
  shows "n mod 256 + 256 * (n div 2 ^ 8 mod 256 + 256 * (n div 2 ^ 16 mod 256
           + 256 * (n div 2 ^ 24 mod 256 + 256 * (n div 2 ^ 32 mod 256
           + 256 * (n div 2 ^ 40 mod 256 + 256 * (n div 2 ^ 48 mod 256
           + 256 * (n div 2 ^ 56 mod 256))))))) = n"
proof -
  have "n div 2 ^ 56 < 256" using assms by (simp add: less_mult_imp_div_less)
  then have "n div 2 ^ 56 mod 256 = n div 2 ^ 56" by simp
  then show ?thesis
    using digit_step [of n 48] digit_step [of n 40] digit_step [of n 32] digit_step [of n 24]
      digit_step [of n 16] digit_step [of n 8] digit_step [of n 0] by simp
qed

lemma le_value_le_bytes32: "le_value (le_bytes32 v) = unat v"
proof -
  have lt: "unat v < 2 ^ 32" using unsigned_less [of v, where ?'a = nat] by simp
  then have "unat v div 2 ^ 24 < 256" by (simp add: less_mult_imp_div_less)
  then have top: "unat v div 16777216 mod 256 = unat v div 16777216" by simp
  from digits4 [OF lt] show ?thesis
    by (simp add: le_bytes32_def unat_ucast_byte unat_drop_bit_div top)
qed

lemma le_value_le_bytes64: "le_value (le_bytes64 v) = unat v"
proof -
  have "unat v < 2 ^ 64" using unsigned_less [of v, where ?'a = nat] by simp
  from digits8 [OF this] show ?thesis
    by (simp add: le_bytes64_def unat_ucast_byte unat_drop_bit_div)
qed

lemma be_value_be_bytes32: "be_value (be_bytes32 v) = unat v"
  using le_value_le_bytes32 [of v] by (simp add: be_value_def be_bytes32_def le_bytes32_def)

lemma be_value_be_bytes64: "be_value (be_bytes64 v) = unat v"
  using le_value_le_bytes64 [of v] by (simp add: be_value_def be_bytes64_def le_bytes64_def)

lemma push_bit_3_times_8: "push_bit 3 (l::uint64) = l * 8"
  by (simp add: push_bit_eq_mult)

lemma md5_checkSum_write:
  assumes "md5_inv d"
  shows "\<exists>d' h. md5_checkSum f d = Inr (d', h)
           \<and> md5_Write f d (0x80 # replicate (pad_zeros (md5_len d)) 0 @ le_bytes64 (md5_len d * 8))
               = Inr (d', int (9 + pad_zeros (md5_len d)), None)"
proof -
  define p where "p = 0x80 # replicate (pad_zeros (md5_len d)) 0 @ le_bytes64 (md5_len d * 8)"
  from assms have b: "length (md5_x d) = 64" "0 \<le> md5_nx d" "md5_nx d < 64"
    and nx: "md5_nx d = uint (md5_len d) mod 64"
    by (simp_all add: md5_inv_def)
  have lp: "length p = 9 + pad_zeros (md5_len d)" by (simp add: p_def)
  from md5_Write_sim [OF b, of f p] obtain d' where
    d': "md5_Write f d p = Inr (d', int (length p), None)"
        "md5_nx d' = (md5_nx d + int (length p)) mod 64"
    by blast
  have nx': "md5_nx d' = 0"
    unfolding d'(2) nx lp by (rule pad_length_mod)
  obtain s0 s1 s2 s3 where t: "md5_s d' = (s0, s1, s2, s3)" by (metis surj_pair)
  have pe: "md5_padding (md5_len d) = Inr p"
    by (simp add: md5_padding_eq' p_def push_bit_3_times_8)
  have "\<exists>h. md5_checkSum f d = Inr (d', h)"
    by (simp add: md5_checkSum_def pe d'(1) nx' t md5_Size_def
        LittleEndian_PutUint32_def put_bytes_ok)
  moreover have "md5_Write f d p = Inr (d', int (9 + pad_zeros (md5_len d)), None)"
    using d'(1) by (simp only: lp)
  ultimately show ?thesis unfolding p_def by blast
qed

lemma sha256_checkSum_writes:
  assumes "sha256_inv d"
  shows "\<exists>d1 d' h. sha256_checkSum f d = Inr (d', h)
           \<and> sha256_Write f d (0x80 # replicate (pad_zeros (sha_len d)) 0)
               = Inr (d1, int (1 + pad_zeros (sha_len d)), None)
           \<and> sha256_Write f d1 (be_bytes64 (sha_len d * 8)) = Inr (d', 8, None)"
proof -
  define p1 where "p1 = 0x80 # replicate (pad_zeros (sha_len d)) (0::byte)"
  define p2 where "p2 = be_bytes64 (sha_len d * 8)"
  from assms have b: "length (sha_x d) = 64" "0 \<le> sha_nx d" "sha_nx d < 64"
    and nx: "sha_nx d = uint (sha_len d) mod 64"
    by (simp_all add: sha256_inv_def)
  from sha256_Write_sim [OF b, of f p1] obtain d1 where
    d1: "sha256_Write f d p1 = Inr (d1, int (length p1), None)"
        "length (sha_x d1) = 64"
        "sha_nx d1 = (sha_nx d + int (length p1)) mod 64"
    by blast
  have b1: "0 \<le> sha_nx d1" "sha_nx d1 < 64" by (simp_all add: d1(3))
  from sha256_Write_sim [OF d1(2) b1, of f p2] obtain d2 where
    d2: "sha256_Write f d1 p2 = Inr (d2, int (length p2), None)"
        "sha_nx d2 = (sha_nx d1 + int (length p2)) mod 64"
    by blast
  have "sha_nx d2 = ((uint (sha_len d) mod 64 + int (length p1)) mod 64 + int (length p2)) mod 64"
    unfolding d2(2) d1(3) nx ..
  also have "\<dots> = (uint (sha_len d) mod 64 + (int (length p1) + int (length p2))) mod 64"
    by (simp only: mod_add_left_eq add.assoc)
  also have "int (length p1) + int (length p2) = int (9 + pad_zeros (sha_len d))"
    by (simp add: p1_def p2_def)
  finally have nx2: "sha_nx d2 = 0" by (simp only: pad_length_mod)
  obtain h0 h1 h2 h3 h4 h5 h6 h7 where t: "sha_h d2 = (h0, h1, h2, h3, h4, h5, h6, h7)"
    by (metis surj_pair)
  have pe: "sha256_padding1 (sha_len d) = Inr p1" "sha256_padding2 (sha_len d) = Inr p2"
    by (simp_all add: sha256_padding1_eq sha256_padding2_eq p1_def p2_def push_bit_3_times_8)
  have "\<exists>h. sha256_checkSum f d = Inr (d2, h)"
    by (simp add: sha256_checkSum_def Let_def pe d1(1) d2(1) nx2 t sha256_Size_def
        BigEndian_PutUint32_def put_bytes_ok)
  moreover have "length p1 = 1 + pad_zeros (sha_len d)" "int (length p2) = 8"
    by (simp_all add: p1_def p2_def)
  moreover note d1(1) d2(1)
  ultimately have "\<exists>h. sha256_checkSum f d = Inr (d2, h)"
    "sha256_Write f d p1 = Inr (d1, int (1 + pad_zeros (sha_len d)), None)"
    "sha256_Write f d1 p2 = Inr (d2, 8, None)"
    by simp_all
  then show ?thesis unfolding p1_def p2_def by blast
qed

lemma md5_reachable_padding:
  "\<exists>d d' h. md5_calls f md5_New cs = Inr d \<and> md5_checkSum f d = Inr (d', h)
      \<and> md5_Write f d (0x80 # replicate (pad_zeros (md5_len d)) 0 @ le_bytes64 (md5_len d * 8))
          = Inr (d', int (9 + pad_zeros (md5_len d)), None)"
proof -
  from md5_calls_inv [OF md5_inv_New, of f cs] obtain d where
    d: "md5_calls f md5_New cs = Inr d" "md5_inv d" by blast
  from md5_checkSum_write [OF d(2), of f] d(1) show ?thesis by blast
qed

lemma sha256_reachable_padding:
  assumes "sha256_inv d0"
  shows "\<exists>d d1 d' h. sha256_calls f d0 cs = Inr d \<and> sha256_checkSum f d = Inr (d', h)
           \<and> sha256_Write f d (0x80 # replicate (pad_zeros (sha_len d)) 0)
               = Inr (d1, int (1 + pad_zeros (sha_len d)), None)
           \<and> sha256_Write f d1 (be_bytes64 (sha_len d * 8)) = Inr (d', 8, None)"
proof -
  from sha256_calls_inv [OF assms, of f cs] obtain d where
    d: "sha256_calls f d0 cs = Inr d" "sha256_inv d" by blast
  from sha256_checkSum_writes [OF d(2), of f] d(1) show ?thesis by blast
qed

lemma padded_length: "(unat l + (9 + pad_zeros l)) mod 64 = 0"
proof -
  have "(unat l + 1 + pad_zeros l + 8) mod 64 = ((unat l + 1 + pad_zeros l) mod 64 + 8) mod 64"
    by (simp only: mod_add_left_eq)
  also have "\<dots> = 0" unfolding pad_zeros_def pad_congruence by simp
  finally show ?thesis by (simp add: algebra_simps)
qed

text \<open>
  C3 (finalization padding and length encoding). For every byte count \<open>l\<close> (the field
  \<open>len\<close>, a \<open>uint64\<close>): the bytes \<^verbatim>\<open>checkSum\<close> writes are one byte \<open>0x80\<close>, then
  \<open>pad_zeros l\<close> zero bytes, then an 8-byte field. \<open>pad_zeros l\<close> is the number below 64
  that brings the length to 56 modulo 64. The field holds \<open>l * 8\<close> (the bit count, in
  64-bit arithmetic): read with the first byte least significant for MD5, with the first
  byte most significant for SHA-224/256. The padded length is a multiple of 64. On
  every instance a caller can reach, \<^verbatim>\<open>checkSum\<close> returns the instance left by
  writing exactly these bytes (MD5 in one \<^verbatim>\<open>Write\<close>, SHA-224/256 in two).
\<close>

theorem C3_padding_and_length_field:
  "md5_padding l = Inr (0x80 # replicate (pad_zeros l) 0 @ le_bytes64 (l * 8))
   \<and> bindP (sha256_padding1 l) (\<lambda>p1. bindP (sha256_padding2 l) (\<lambda>p2. Inr (p1 @ p2)))
       = Inr (0x80 # replicate (pad_zeros l) 0 @ be_bytes64 (l * 8))
   \<and> pad_zeros l < 64
   \<and> (unat l + 1 + pad_zeros l) mod 64 = 56
   \<and> length (le_bytes64 (l * 8)) = 8 \<and> le_value (le_bytes64 (l * 8)) = unat (l * 8)
   \<and> length (be_bytes64 (l * 8)) = 8 \<and> be_value (be_bytes64 (l * 8)) = unat (l * 8)
   \<and> unat (l * 8) = unat l * 8 mod 2 ^ 64
   \<and> (unat l + length (0x80 # replicate (pad_zeros l) 0 @ le_bytes64 (l * 8))) mod 64 = 0
   \<and> (unat l + length (0x80 # replicate (pad_zeros l) 0 @ be_bytes64 (l * 8))) mod 64 = 0
   \<and> (\<exists>d d' h. md5_calls f md5_New cs = Inr d \<and> md5_checkSum f d = Inr (d', h)
      \<and> md5_Write f d (0x80 # replicate (pad_zeros (md5_len d)) 0 @ le_bytes64 (md5_len d * 8))
          = Inr (d', int (9 + pad_zeros (md5_len d)), None))
   \<and> (\<exists>d d1 d' h. sha256_calls g sha256_New cs = Inr d \<and> sha256_checkSum g d = Inr (d', h)
      \<and> sha256_Write g d (0x80 # replicate (pad_zeros (sha_len d)) 0)
          = Inr (d1, int (1 + pad_zeros (sha_len d)), None)
      \<and> sha256_Write g d1 (be_bytes64 (sha_len d * 8)) = Inr (d', 8, None))
   \<and> (\<exists>d d1 d' h. sha256_calls g sha256_New224 cs = Inr d \<and> sha256_checkSum g d = Inr (d', h)
      \<and> sha256_Write g d (0x80 # replicate (pad_zeros (sha_len d)) 0)
          = Inr (d1, int (1 + pad_zeros (sha_len d)), None)
      \<and> sha256_Write g d1 (be_bytes64 (sha_len d * 8)) = Inr (d', 8, None))"
proof (intro conjI)
  show "md5_padding l = Inr (0x80 # replicate (pad_zeros l) 0 @ le_bytes64 (l * 8))"
    by (simp add: md5_padding_eq' push_bit_3_times_8)
  show "bindP (sha256_padding1 l) (\<lambda>p1. bindP (sha256_padding2 l) (\<lambda>p2. Inr (p1 @ p2)))
       = Inr (0x80 # replicate (pad_zeros l) 0 @ be_bytes64 (l * 8))"
    by (simp add: sha256_padding1_eq sha256_padding2_eq push_bit_3_times_8)
  show "pad_zeros l < 64" unfolding pad_zeros_def by (rule pad_lt_64)
  show "(unat l + 1 + pad_zeros l) mod 64 = 56" unfolding pad_zeros_def by (rule pad_congruence)
  show "le_value (le_bytes64 (l * 8)) = unat (l * 8)" by (rule le_value_le_bytes64)
  show "be_value (be_bytes64 (l * 8)) = unat (l * 8)" by (rule be_value_be_bytes64)
  show "unat (l * 8) = unat l * 8 mod 2 ^ 64" by (simp add: unat_word_ariths)
  show "(unat l + length (0x80 # replicate (pad_zeros l) 0 @ le_bytes64 (l * 8))) mod 64 = 0"
    using padded_length [of l] by (simp add: algebra_simps)
  show "(unat l + length (0x80 # replicate (pad_zeros l) 0 @ be_bytes64 (l * 8))) mod 64 = 0"
    using padded_length [of l] by (simp add: algebra_simps)
qed (use md5_reachable_padding [of f cs]
      sha256_reachable_padding [OF sha256_inv_New(1), of g cs]
      sha256_reachable_padding [OF sha256_inv_New(2), of g cs] in simp_all)

lemma md5_reachable_marshal:
  "\<exists>d s0 s1 s2 s3 b. md5_calls f md5_New cs = Inr d \<and> md5_s d = (s0, s1, s2, s3)
      \<and> md5_MarshalBinary d = Inr (b, None)
      \<and> b = md5_magic @ be_bytes32 s0 @ be_bytes32 s1 @ be_bytes32 s2 @ be_bytes32 s3
            @ take (nat (md5_nx d)) (md5_x d) @ replicate (64 - nat (md5_nx d)) 0
            @ be_bytes64 (md5_len d)
      \<and> length b = 92"
proof -
  from md5_calls_inv [OF md5_inv_New, of f cs] obtain d where
    d: "md5_calls f md5_New cs = Inr d" "md5_inv d" by blast
  have b: "length (md5_x d) = 64" "0 \<le> md5_nx d" "md5_nx d \<le> 64"
    using d(2) by (simp_all add: md5_inv_def)
  obtain s0 s1 s2 s3 where s: "md5_s d = (s0, s1, s2, s3)" by (metis surj_pair)
  have "length (md5_layout d) = 92" using b by (simp add: md5_layout_def s)
  with md5_MarshalBinary_eq [OF b] d(1) s show ?thesis
    by (simp add: md5_layout_def)
qed

lemma sha256_reachable_marshal:
  assumes "sha256_inv d0"
  shows "\<exists>d h0 h1 h2 h3 h4 h5 h6 h7 b. sha256_calls f d0 cs = Inr d
      \<and> sha_h d = (h0, h1, h2, h3, h4, h5, h6, h7)
      \<and> sha256_MarshalBinary d = Inr (b, None)
      \<and> b = (if sha_is224 d0 then sha256_magic224 else sha256_magic256)
            @ be_bytes32 h0 @ be_bytes32 h1 @ be_bytes32 h2 @ be_bytes32 h3
            @ be_bytes32 h4 @ be_bytes32 h5 @ be_bytes32 h6 @ be_bytes32 h7
            @ take (nat (sha_nx d)) (sha_x d) @ replicate (64 - nat (sha_nx d)) 0
            @ be_bytes64 (sha_len d)
      \<and> length b = 108"
proof -
  from sha256_calls_inv [OF assms, of f cs] obtain d where
    d: "sha256_calls f d0 cs = Inr d" "sha256_inv d" "sha_is224 d = sha_is224 d0" by blast
  have b: "length (sha_x d) = 64" "0 \<le> sha_nx d" "sha_nx d \<le> 64"
    using d(2) by (simp_all add: sha256_inv_def)
  obtain h0 h1 h2 h3 h4 h5 h6 h7 where s: "sha_h d = (h0, h1, h2, h3, h4, h5, h6, h7)"
    by (metis surj_pair)
  have "length (sha256_layout d) = 108" using b by (simp add: sha256_layout_def s)
  with sha256_MarshalBinary_eq [OF b] d(1,3) s show ?thesis
    by (simp add: sha256_layout_def sha256_magic_def)
qed

text \<open>
  C6 as amended (serialized-state blob). On every instance a caller can reach,
  \<^verbatim>\<open>MarshalBinary\<close> returns, with a \<open>nil\<close> error, the magic tag, then each state
  word as four bytes most significant first, then the first \<open>nx\<close> bytes of the buffer
  followed by \<open>64 - nx\<close> zero bytes, then \<open>len\<close> as eight bytes most significant first.
  The blob has 92 bytes for MD5 and 108 bytes (4 + 8*4 + 64 + 8) for SHA-256 and
  SHA-224.
\<close>

theorem C6_marshal_layout:
  "(\<exists>d s0 s1 s2 s3 b. md5_calls f md5_New cs = Inr d \<and> md5_s d = (s0, s1, s2, s3)
      \<and> md5_MarshalBinary d = Inr (b, None)
      \<and> b = md5_magic @ be_bytes32 s0 @ be_bytes32 s1 @ be_bytes32 s2 @ be_bytes32 s3
            @ take (nat (md5_nx d)) (md5_x d) @ replicate (64 - nat (md5_nx d)) 0
            @ be_bytes64 (md5_len d)
      \<and> length b = 92)
   \<and> (\<exists>d h0 h1 h2 h3 h4 h5 h6 h7 b. sha256_calls g sha256_New cs = Inr d
      \<and> sha_h d = (h0, h1, h2, h3, h4, h5, h6, h7)
      \<and> sha256_MarshalBinary d = Inr (b, None)
      \<and> b = sha256_magic256
            @ be_bytes32 h0 @ be_bytes32 h1 @ be_bytes32 h2 @ be_bytes32 h3
            @ be_bytes32 h4 @ be_bytes32 h5 @ be_bytes32 h6 @ be_bytes32 h7
            @ take (nat (sha_nx d)) (sha_x d) @ replicate (64 - nat (sha_nx d)) 0
            @ be_bytes64 (sha_len d)
      \<and> length b = 108)
   \<and> (\<exists>d h0 h1 h2 h3 h4 h5 h6 h7 b. sha256_calls g sha256_New224 cs = Inr d
      \<and> sha_h d = (h0, h1, h2, h3, h4, h5, h6, h7)
      \<and> sha256_MarshalBinary d = Inr (b, None)
      \<and> b = sha256_magic224
            @ be_bytes32 h0 @ be_bytes32 h1 @ be_bytes32 h2 @ be_bytes32 h3
            @ be_bytes32 h4 @ be_bytes32 h5 @ be_bytes32 h6 @ be_bytes32 h7
            @ take (nat (sha_nx d)) (sha_x d) @ replicate (64 - nat (sha_nx d)) 0
            @ be_bytes64 (sha_len d)
      \<and> length b = 108)
   \<and> length md5_magic = 4 \<and> length sha256_magic256 = 4 \<and> length sha256_magic224 = 4
   \<and> length (be_bytes32 w) = 4 \<and> be_value (be_bytes32 w) = unat w
   \<and> length (be_bytes64 v) = 8 \<and> be_value (be_bytes64 v) = unat v
   \<and> md5_marshaledSize = 92 \<and> sha256_marshaledSize = 108"
proof (intro conjI)
  show "be_value (be_bytes32 w) = unat w" by (rule be_value_be_bytes32)
  show "be_value (be_bytes64 v) = unat v" by (rule be_value_be_bytes64)
  show "md5_marshaledSize = 92" by (simp add: md5_marshaledSize_def md5_BlockSize_def)
  show "sha256_marshaledSize = 108" by (simp add: sha256_marshaledSize_def sha256_chunk_def)
qed (use md5_reachable_marshal [of f cs]
      sha256_reachable_marshal [OF sha256_inv_New(1), of g cs]
      sha256_reachable_marshal [OF sha256_inv_New(2), of g cs] in simp_all)

text \<open>
  C6 as stated gives 136 bytes for SHA-256/224. The export of a fresh SHA-256 instance
  has 108 bytes.
\<close>

theorem C6_sha256_blob_length_counterexample:
  "(case sha256_MarshalBinary sha256_New of Inl p \<Rightarrow> None | Inr (b, err) \<Rightarrow> Some (length b))
     = Some 108
   \<and> (case sha256_MarshalBinary sha256_New of Inl p \<Rightarrow> None | Inr (b, err) \<Rightarrow> Some (length b))
     \<noteq> Some 136"
proof -
  have b: "length (sha_x sha256_New) = 64" "0 \<le> sha_nx sha256_New" "sha_nx sha256_New \<le> 64"
    by (simp_all add: sha256_New_def sha256_Reset_def sha256_zero_def Let_def)
  obtain h0 h1 h2 h3 h4 h5 h6 h7 where s: "sha_h sha256_New = (h0, h1, h2, h3, h4, h5, h6, h7)"
    by (metis surj_pair)
  have "length (sha256_layout sha256_New) = 108" using b by (simp add: sha256_layout_def s)
  then show ?thesis by (simp add: sha256_MarshalBinary_eq [OF b])
qed

subsection \<open>Claims C1, C2 and C4\<close>

lemma length_md5_final [simp]: "length (md5_final f a l) = 16"
proof -
  obtain s0 s1 s2 s3 where
    "fst (absorb f a (0x80 # replicate (pad_zeros l) 0 @ le_bytes64 (push_bit 3 l))) = (s0, s1, s2, s3)"
    by (metis surj_pair)
  then show ?thesis by (simp add: md5_final_def)
qed

lemma length_sha256_final [simp]: "length (sha256_final f i a l) = 32"
proof -
  obtain h0 h1 h2 h3 h4 h5 h6 h7 where
    "fst (absorb f a (0x80 # replicate (pad_zeros l) 0 @ be_bytes64 (push_bit 3 l)))
       = (h0, h1, h2, h3, h4, h5, h6, h7)"
    by (metis surj_pair)
  then show ?thesis by (simp add: sha256_final_def)
qed

lemma md5_run_writes: "md5_run f (map Call_Write ps) = Inr (md5_digest_of f (concat ps))"
proof -
  from md5_writes_abs [OF md5_inv_New, of f ps] obtain d where
    d: "md5_calls f md5_New (map Call_Write ps) = Inr d" "md5_inv d"
       "md5_abs d = absorb f (md5_abs md5_New) (concat ps)"
       "md5_len d = md5_len md5_New + of_nat (length (concat ps))" by blast
  show ?thesis
    using d(3,4) by (simp add: md5_run_def d(1) md5_Sum_eq [OF d(2)] md5_digest_of_def)
qed

lemma md5_Sum_data_eq: "md5_Sum_data f m = Inr (md5_digest_of f m)"
proof -
  from md5_Write_inv [OF md5_inv_New, of f m] obtain d where
    d: "md5_Write f md5_New m = Inr (d, int (length m), None)" "md5_inv d"
       "md5_abs d = absorb f (md5_abs md5_New) m"
       "md5_len d = md5_len md5_New + of_nat (length m)" by blast
  from md5_checkSum_eq [OF d(2), of f] obtain d' where
    "md5_checkSum f d = Inr (d', md5_final f (md5_abs d) (md5_len d))" by blast
  then show ?thesis
    using d(1,3,4) by (simp add: md5_Sum_data_def md5_digest_of_def flip: md5_New_def)
qed

lemma sha256_run_writes:
  assumes "sha256_inv d0" "sha_len d0 = 0"
  shows "sha256_run f d0 (map Call_Write ps) = Inr (sha256_digest_of f d0 (concat ps))"
proof -
  from sha256_writes_abs [OF assms(1), of f ps] obtain d where
    d: "sha256_calls f d0 (map Call_Write ps) = Inr d" "sha256_inv d"
       "sha256_abs d = absorb f (sha256_abs d0) (concat ps)"
       "sha_len d = sha_len d0 + of_nat (length (concat ps))"
       "sha_is224 d = sha_is224 d0" by blast
  show ?thesis
    using d(3,4,5) assms(2)
    by (simp add: sha256_run_def d(1) sha256_Sum_eq [OF d(2)] sha256_digest_of_def)
qed

lemma sha256_Sum256_eq: "sha256_Sum256 f m = Inr (sha256_digest_of f sha256_New m)"
proof -
  from sha256_Write_inv [OF sha256_inv_New(1), of f m] obtain d where
    d: "sha256_Write f sha256_New m = Inr (d, int (length m), None)" "sha256_inv d"
       "sha256_abs d = absorb f (sha256_abs sha256_New) m"
       "sha_len d = sha_len sha256_New + of_nat (length m)"
       "sha_is224 d = sha_is224 sha256_New" by blast
  from sha256_checkSum_eq [OF d(2), of f] obtain d' where
    "sha256_checkSum f d = Inr (d', sha256_final f (sha_is224 d) (sha256_abs d) (sha_len d))"
    by blast
  then show ?thesis
    using d(1,3,4,5)
    by (simp add: sha256_Sum256_def sha256_digest_of_def flip: sha256_New_def)
qed

lemma sha256_Sum224_eq: "sha256_Sum224 f m = Inr (sha256_digest_of f sha256_New224 m)"
proof -
  from sha256_Write_inv [OF sha256_inv_New(2), of f m] obtain d where
    d: "sha256_Write f sha256_New224 m = Inr (d, int (length m), None)" "sha256_inv d"
       "sha256_abs d = absorb f (sha256_abs sha256_New224) m"
       "sha_len d = sha_len sha256_New224 + of_nat (length m)"
       "sha_is224 d = sha_is224 sha256_New224" by blast
  from sha256_checkSum_eq [OF d(2), of f] obtain d' where
    "sha256_checkSum f d = Inr (d', sha256_final f (sha_is224 d) (sha256_abs d) (sha_len d))"
    by blast
  then show ?thesis
    using d(1,3,4,5)
    by (simp add: sha256_Sum224_def sha256_digest_of_def sha256_Size224_def go_copy_def Let_def
        flip: sha256_New224_def)
qed

lemma length_sha256_digest_of:
  "length (sha256_digest_of f d0 m) = (if sha_is224 d0 then 28 else 32)"
  by (simp add: sha256_digest_of_def)

text \<open>
  C1 (chunking invariance). For MD5, SHA-256 and SHA-224, every byte sequence split in
  any way into any number of writes: a fresh instance that is written the pieces in
  order and then summed returns the same digest as a fresh instance written the whole
  input in one call, and as the package's one-shot function on the whole input. In
  particular writing \<open>a\<close> then \<open>b\<close> gives the digest of writing \<open>a @ b\<close>. No call
  panics, and the digests have 16, 32 and 28 bytes.
\<close>

theorem C1_chunking_invariance:
  "(\<exists>h. md5_run f (map Call_Write ps) = Inr h
       \<and> md5_run f [Call_Write (concat ps)] = Inr h
       \<and> md5_Sum_data f (concat ps) = Inr h \<and> length h = 16)
   \<and> md5_run f [Call_Write a, Call_Write b] = md5_run f [Call_Write (a @ b)]
   \<and> (\<exists>h. sha256_run g sha256_New (map Call_Write ps) = Inr h
       \<and> sha256_run g sha256_New [Call_Write (concat ps)] = Inr h
       \<and> sha256_Sum256 g (concat ps) = Inr h \<and> length h = 32)
   \<and> sha256_run g sha256_New [Call_Write a, Call_Write b]
       = sha256_run g sha256_New [Call_Write (a @ b)]
   \<and> (\<exists>h. sha256_run g sha256_New224 (map Call_Write ps) = Inr h
       \<and> sha256_run g sha256_New224 [Call_Write (concat ps)] = Inr h
       \<and> sha256_Sum224 g (concat ps) = Inr h \<and> length h = 28)
   \<and> sha256_run g sha256_New224 [Call_Write a, Call_Write b]
       = sha256_run g sha256_New224 [Call_Write (a @ b)]"
proof (intro conjI)
  show "\<exists>h. md5_run f (map Call_Write ps) = Inr h
       \<and> md5_run f [Call_Write (concat ps)] = Inr h
       \<and> md5_Sum_data f (concat ps) = Inr h \<and> length h = 16"
    using md5_run_writes [of f ps] md5_run_writes [of f "[concat ps]"]
    by (simp add: md5_Sum_data_eq md5_digest_of_def)
  show "md5_run f [Call_Write a, Call_Write b] = md5_run f [Call_Write (a @ b)]"
    using md5_run_writes [of f "[a, b]"] md5_run_writes [of f "[a @ b]"] by simp
  show "\<exists>h. sha256_run g sha256_New (map Call_Write ps) = Inr h
       \<and> sha256_run g sha256_New [Call_Write (concat ps)] = Inr h
       \<and> sha256_Sum256 g (concat ps) = Inr h \<and> length h = 32"
    using sha256_run_writes [OF sha256_inv_New(1), of g ps]
      sha256_run_writes [OF sha256_inv_New(1), of g "[concat ps]"]
    by (simp add: sha256_Sum256_eq length_sha256_digest_of)
  show "sha256_run g sha256_New [Call_Write a, Call_Write b]
       = sha256_run g sha256_New [Call_Write (a @ b)]"
    using sha256_run_writes [OF sha256_inv_New(1), of g "[a, b]"]
      sha256_run_writes [OF sha256_inv_New(1), of g "[a @ b]"] by simp
  show "\<exists>h. sha256_run g sha256_New224 (map Call_Write ps) = Inr h
       \<and> sha256_run g sha256_New224 [Call_Write (concat ps)] = Inr h
       \<and> sha256_Sum224 g (concat ps) = Inr h \<and> length h = 28"
    using sha256_run_writes [OF sha256_inv_New(2), of g ps]
      sha256_run_writes [OF sha256_inv_New(2), of g "[concat ps]"]
    by (simp add: sha256_Sum224_eq length_sha256_digest_of)
  show "sha256_run g sha256_New224 [Call_Write a, Call_Write b]
       = sha256_run g sha256_New224 [Call_Write (a @ b)]"
    using sha256_run_writes [OF sha256_inv_New(2), of g "[a, b]"]
      sha256_run_writes [OF sha256_inv_New(2), of g "[a @ b]"] by simp
qed

lemma md5_calls_skip_Sum:
  assumes "md5_inv d0"
  shows "md5_calls f d0 (cs @ Call_Sum inp # cs') = md5_calls f d0 (cs @ cs')"
proof -
  from md5_calls_inv [OF assms, of f cs] obtain d where
    d: "md5_calls f d0 cs = Inr d" "md5_inv d" by blast
  show ?thesis by (simp add: md5_calls_append d(1) md5_Sum_eq [OF d(2)])
qed

lemma sha256_calls_skip_Sum:
  assumes "sha256_inv d0"
  shows "sha256_calls f d0 (cs @ Call_Sum inp # cs') = sha256_calls f d0 (cs @ cs')"
proof -
  from sha256_calls_inv [OF assms, of f cs] obtain d where
    d: "sha256_calls f d0 cs = Inr d" "sha256_inv d" by blast
  show ?thesis by (simp add: sha256_calls_append d(1) sha256_Sum_eq [OF d(2)])
qed

lemma md5_sum_between:
  "(\<exists>d out. md5_calls f md5_New cs = Inr d \<and> md5_Sum f d inp = Inr (d, out))
   \<and> md5_calls f md5_New (cs @ Call_Sum inp # cs') = md5_calls f md5_New (cs @ cs')
   \<and> md5_run f (cs @ Call_Sum inp # cs') = md5_run f (cs @ cs')
   \<and> (\<exists>h. md5_run f (map Call_Write ps @ Call_Sum inp # map Call_Write qs) = Inr h
         \<and> md5_Sum_data f (concat ps @ concat qs) = Inr h)"
proof (intro conjI)
  from md5_calls_inv [OF md5_inv_New, of f cs] obtain d where
    d: "md5_calls f md5_New cs = Inr d" "md5_inv d" by blast
  then show "\<exists>d out. md5_calls f md5_New cs = Inr d \<and> md5_Sum f d inp = Inr (d, out)"
    by (simp add: md5_Sum_eq)
  show skip: "md5_calls f md5_New (cs @ Call_Sum inp # cs') = md5_calls f md5_New (cs @ cs')"
    by (rule md5_calls_skip_Sum [OF md5_inv_New])
  then show "md5_run f (cs @ Call_Sum inp # cs') = md5_run f (cs @ cs')"
    by (simp only: md5_run_def)
  have "md5_run f (map Call_Write ps @ Call_Sum inp # map Call_Write qs)
      = md5_run f (map Call_Write (ps @ qs))"
    by (simp only: md5_run_def md5_calls_skip_Sum [OF md5_inv_New] map_append)
  then show "\<exists>h. md5_run f (map Call_Write ps @ Call_Sum inp # map Call_Write qs) = Inr h
         \<and> md5_Sum_data f (concat ps @ concat qs) = Inr h"
    using md5_run_writes [of f "ps @ qs"] by (simp add: md5_Sum_data_eq)
qed

lemma sha256_sum_between:
  assumes "sha256_inv d0" "sha_len d0 = 0"
  shows "(\<exists>d out. sha256_calls f d0 cs = Inr d \<and> sha256_Sum f d inp = Inr (d, out))
   \<and> sha256_calls f d0 (cs @ Call_Sum inp # cs') = sha256_calls f d0 (cs @ cs')
   \<and> sha256_run f d0 (cs @ Call_Sum inp # cs') = sha256_run f d0 (cs @ cs')
   \<and> sha256_run f d0 (map Call_Write ps @ Call_Sum inp # map Call_Write qs)
       = Inr (sha256_digest_of f d0 (concat ps @ concat qs))"
proof (intro conjI)
  from sha256_calls_inv [OF assms(1), of f cs] obtain d where
    d: "sha256_calls f d0 cs = Inr d" "sha256_inv d" by blast
  then show "\<exists>d out. sha256_calls f d0 cs = Inr d \<and> sha256_Sum f d inp = Inr (d, out)"
    by (simp add: sha256_Sum_eq)
  show skip: "sha256_calls f d0 (cs @ Call_Sum inp # cs') = sha256_calls f d0 (cs @ cs')"
    by (rule sha256_calls_skip_Sum [OF assms(1)])
  then show "sha256_run f d0 (cs @ Call_Sum inp # cs') = sha256_run f d0 (cs @ cs')"
    by (simp only: sha256_run_def)
  have "sha256_run f d0 (map Call_Write ps @ Call_Sum inp # map Call_Write qs)
      = sha256_run f d0 (map Call_Write (ps @ qs))"
    by (simp only: sha256_run_def sha256_calls_skip_Sum [OF assms(1)] map_append)
  then show "sha256_run f d0 (map Call_Write ps @ Call_Sum inp # map Call_Write qs)
       = Inr (sha256_digest_of f d0 (concat ps @ concat qs))"
    using sha256_run_writes [OF assms, of f "ps @ qs"] by simp
qed

text \<open>
  C2 (non-destructive finalize). On every instance a caller can reach (any sequence
  \<open>cs\<close> of calls on a fresh one), \<^verbatim>\<open>Sum\<close> returns normally and leaves the instance
  as it was: state words, buffer, fill count and byte count. A \<^verbatim>\<open>Sum\<close> call anywhere
  in a sequence of calls changes nothing for the calls after it, and a later \<^verbatim>\<open>Sum\<close>
  after writes \<open>ps\<close>, a \<^verbatim>\<open>Sum\<close>, and writes \<open>qs\<close> returns the digest of all the bytes
  of \<open>ps\<close> and \<open>qs\<close>: what the one-shot function returns for them.
\<close>

theorem C2_sum_is_non_destructive:
  "((\<exists>d out. md5_calls f md5_New cs = Inr d \<and> md5_Sum f d inp = Inr (d, out))
    \<and> md5_calls f md5_New (cs @ Call_Sum inp # cs') = md5_calls f md5_New (cs @ cs')
    \<and> md5_run f (cs @ Call_Sum inp # cs') = md5_run f (cs @ cs')
    \<and> (\<exists>h. md5_run f (map Call_Write ps @ Call_Sum inp # map Call_Write qs) = Inr h
          \<and> md5_Sum_data f (concat ps @ concat qs) = Inr h))
   \<and> ((\<exists>d out. sha256_calls g sha256_New cs = Inr d \<and> sha256_Sum g d inp = Inr (d, out))
    \<and> sha256_calls g sha256_New (cs @ Call_Sum inp # cs') = sha256_calls g sha256_New (cs @ cs')
    \<and> sha256_run g sha256_New (cs @ Call_Sum inp # cs') = sha256_run g sha256_New (cs @ cs')
    \<and> (\<exists>h. sha256_run g sha256_New (map Call_Write ps @ Call_Sum inp # map Call_Write qs) = Inr h
          \<and> sha256_Sum256 g (concat ps @ concat qs) = Inr h))
   \<and> ((\<exists>d out. sha256_calls g sha256_New224 cs = Inr d \<and> sha256_Sum g d inp = Inr (d, out))
    \<and> sha256_calls g sha256_New224 (cs @ Call_Sum inp # cs')
        = sha256_calls g sha256_New224 (cs @ cs')
    \<and> sha256_run g sha256_New224 (cs @ Call_Sum inp # cs') = sha256_run g sha256_New224 (cs @ cs')
    \<and> (\<exists>h. sha256_run g sha256_New224 (map Call_Write ps @ Call_Sum inp # map Call_Write qs)
            = Inr h
          \<and> sha256_Sum224 g (concat ps @ concat qs) = Inr h))"
  using md5_sum_between [of f cs inp cs' ps qs]
    sha256_sum_between [OF sha256_inv_New(1) sha256_New_fields(1), of g cs inp cs' ps qs]
    sha256_sum_between [OF sha256_inv_New(2) sha256_New_fields(3), of g cs inp cs' ps qs]
  by (simp add: sha256_Sum256_eq sha256_Sum224_eq)

lemma be_word32_bytes' [simp]: "be_word32 (be_bytes32 v) = v"
  using be_word32_bytes [of v "[]"] by simp

lemma be_word64_bytes' [simp]: "be_word64 (be_bytes64 v) = v"
  using be_word64_bytes [of v "[]"] by simp

lemma md5_import_layout:
  assumes "md5_inv d"
  shows "md5_abs (md5_import d0 (md5_layout d)) = md5_abs d"
    and "md5_len (md5_import d0 (md5_layout d)) = md5_len d"
    and "md5_nx (md5_import d0 (md5_layout d)) = uint (md5_len d) mod 64"
    and "md5_inv (md5_import d0 (md5_layout d))"
proof -
  obtain s0 s1 s2 s3 where s: "md5_s d = (s0, s1, s2, s3)" by (metis surj_pair)
  from assms have b: "length (md5_x d) = 64" "0 \<le> md5_nx d" "md5_nx d < 64"
    and nx: "md5_nx d = uint (md5_len d) mod 64"
    by (simp_all add: md5_inv_def)
  define n where "n = nat (md5_nx d)"
  have n: "n < 64" "md5_nx d = int n" using b by (simp_all add: n_def)
  define t where "t = take n (md5_x d)"
  have lt: "length t = n" using n b by (simp add: t_def)
  have lay: "md5_layout d = md5_magic @ be_bytes32 s0 @ be_bytes32 s1 @ be_bytes32 s2
      @ be_bytes32 s3 @ t @ replicate (64 - n) 0 @ be_bytes64 (md5_len d)"
    by (simp add: md5_layout_def s t_def n_def)
  have i: "md5_import d0 (md5_layout d)
      = d0\<lparr>md5_s := (s0, s1, s2, s3), md5_x := t @ replicate (64 - n) 0,
            md5_len := md5_len d, md5_nx := uint (md5_len d mod 64)\<rparr>"
    using lt n(1) by (simp add: lay md5_import_def)
  have u: "uint (md5_len d mod 64) = int n" using nx n(2) by (simp add: uint_mod)
  show "md5_abs (md5_import d0 (md5_layout d)) = md5_abs d"
    using lt by (simp add: i u md5_abs_def s n(2) t_def)
  show "md5_len (md5_import d0 (md5_layout d)) = md5_len d" by (simp add: i)
  show "md5_nx (md5_import d0 (md5_layout d)) = uint (md5_len d) mod 64"
    by (simp add: i uint_mod)
  show "md5_inv (md5_import d0 (md5_layout d))"
    using lt n(1) by (simp add: i md5_inv_def uint_mod)
qed

lemma sha256_import_layout:
  assumes "sha256_inv d"
  shows "sha256_abs (sha256_import d0 (sha256_layout d)) = sha256_abs d"
    and "sha_len (sha256_import d0 (sha256_layout d)) = sha_len d"
    and "sha_nx (sha256_import d0 (sha256_layout d)) = uint (sha_len d) mod 64"
    and "sha256_inv (sha256_import d0 (sha256_layout d))"
proof -
  obtain h0 h1 h2 h3 h4 h5 h6 h7 where s: "sha_h d = (h0, h1, h2, h3, h4, h5, h6, h7)"
    by (metis surj_pair)
  from assms have b: "length (sha_x d) = 64" "0 \<le> sha_nx d" "sha_nx d < 64"
    and nx: "sha_nx d = uint (sha_len d) mod 64"
    by (simp_all add: sha256_inv_def)
  define n where "n = nat (sha_nx d)"
  have n: "n < 64" "sha_nx d = int n" using b by (simp_all add: n_def)
  define t where "t = take n (sha_x d)"
  have lt: "length t = n" using n b by (simp add: t_def)
  have lay: "sha256_layout d = sha256_magic d @ be_bytes32 h0 @ be_bytes32 h1 @ be_bytes32 h2
      @ be_bytes32 h3 @ be_bytes32 h4 @ be_bytes32 h5 @ be_bytes32 h6 @ be_bytes32 h7
      @ t @ replicate (64 - n) 0 @ be_bytes64 (sha_len d)"
    by (simp add: sha256_layout_def s t_def n_def)
  have i: "sha256_import d0 (sha256_layout d)
      = d0\<lparr>sha_h := (h0, h1, h2, h3, h4, h5, h6, h7), sha_x := t @ replicate (64 - n) 0,
            sha_len := sha_len d, sha_nx := uint (sha_len d mod 64)\<rparr>"
    using lt n(1) by (simp add: lay sha256_import_def)
  have u: "uint (sha_len d mod 64) = int n" using nx n(2) by (simp add: uint_mod)
  show "sha256_abs (sha256_import d0 (sha256_layout d)) = sha256_abs d"
    using lt by (simp add: i u sha256_abs_def s n(2) t_def)
  show "sha_len (sha256_import d0 (sha256_layout d)) = sha_len d" by (simp add: i)
  show "sha_nx (sha256_import d0 (sha256_layout d)) = uint (sha_len d) mod 64"
    by (simp add: i uint_mod)
  show "sha256_inv (sha256_import d0 (sha256_layout d))"
    using lt n(1) by (simp add: i sha256_inv_def uint_mod)
qed

lemma md5_checkpoint_restore:
  "\<exists>d b d1 e e1 out. md5_calls f md5_New cs = Inr d
      \<and> md5_MarshalBinary d = Inr (b, None)
      \<and> md5_UnmarshalBinary md5_New b = Inr (d1, None)
      \<and> md5_len d1 = md5_len d \<and> md5_nx d1 = uint (md5_len d1) mod 64
      \<and> md5_calls f d (map Call_Write qs) = Inr e
      \<and> md5_calls f d1 (map Call_Write qs) = Inr e1
      \<and> md5_Sum f e inp = Inr (e, out) \<and> md5_Sum f e1 inp = Inr (e1, out)"
proof -
  from md5_calls_inv [OF md5_inv_New, of f cs] obtain d where
    d: "md5_calls f md5_New cs = Inr d" "md5_inv d" by blast
  have b: "length (md5_x d) = 64" "0 \<le> md5_nx d" "md5_nx d \<le> 64"
    using d(2) by (simp_all add: md5_inv_def)
  define d1 where "d1 = md5_import md5_New (md5_layout d)"
  note m = md5_MarshalBinary_eq [OF b]
  have l: "length (md5_layout d) = 92"
    using b by (cases "md5_s d" rule: prod_cases4) (simp add: md5_layout_def)
  have x0: "length (md5_x md5_New) = 64" using md5_inv_New by (simp add: md5_inv_def)
  have u: "md5_UnmarshalBinary md5_New (md5_layout d) = Inr (d1, None)"
    using md5_UnmarshalBinary_ok [OF take4_md5_layout l x0] by (simp add: d1_def)
  note r = md5_import_layout [OF d(2), of md5_New, folded d1_def]
  from md5_writes_abs [OF d(2), of f qs] obtain e where
    e: "md5_calls f d (map Call_Write qs) = Inr e" "md5_inv e"
       "md5_abs e = absorb f (md5_abs d) (concat qs)"
       "md5_len e = md5_len d + of_nat (length (concat qs))" by blast
  from md5_writes_abs [OF r(4), of f qs] obtain e1 where
    e1: "md5_calls f d1 (map Call_Write qs) = Inr e1" "md5_inv e1"
       "md5_abs e1 = absorb f (md5_abs d1) (concat qs)"
       "md5_len e1 = md5_len d1 + of_nat (length (concat qs))" by blast
  have same: "md5_abs e1 = md5_abs e" "md5_len e1 = md5_len e"
    by (simp_all add: e(3,4) e1(3,4) r(1,2))
  have "md5_Sum f e1 inp = Inr (e1, inp @ md5_final f (md5_abs e) (md5_len e))"
    using md5_Sum_eq [OF e1(2), of f inp] by (simp only: same)
  moreover have "md5_nx d1 = uint (md5_len d1) mod 64" by (simp only: r(2,3))
  ultimately show ?thesis
    using d(1) m u r(2) e(1) e1(1) md5_Sum_eq [OF e(2), of f inp] by blast
qed

lemma sha256_checkpoint_restore:
  assumes "sha256_inv d0"
  shows "\<exists>d b d1 e e1 out. sha256_calls f d0 cs = Inr d
      \<and> sha256_MarshalBinary d = Inr (b, None)
      \<and> sha256_UnmarshalBinary d0 b = Inr (d1, None)
      \<and> sha_len d1 = sha_len d \<and> sha_nx d1 = uint (sha_len d1) mod 64
      \<and> sha256_calls f d (map Call_Write qs) = Inr e
      \<and> sha256_calls f d1 (map Call_Write qs) = Inr e1
      \<and> sha256_Sum f e inp = Inr (e, out) \<and> sha256_Sum f e1 inp = Inr (e1, out)"
proof -
  from sha256_calls_inv [OF assms, of f cs] obtain d where
    d: "sha256_calls f d0 cs = Inr d" "sha256_inv d" "sha_is224 d = sha_is224 d0" by blast
  have b: "length (sha_x d) = 64" "0 \<le> sha_nx d" "sha_nx d \<le> 64"
    using d(2) by (simp_all add: sha256_inv_def)
  define d1 where "d1 = sha256_import d0 (sha256_layout d)"
  note m = sha256_MarshalBinary_eq [OF b]
  obtain h0 h1 h2 h3 h4 h5 h6 h7 where s: "sha_h d = (h0, h1, h2, h3, h4, h5, h6, h7)"
    by (metis surj_pair)
  have l: "length (sha256_layout d) = 108"
    using b by (simp add: sha256_layout_def s)
  have x0: "length (sha_x d0) = 64" using assms by (simp add: sha256_inv_def)
  have t4: "take 4 (sha256_layout d) = sha256_magic d0"
    using d(3) by (simp add: take4_sha256_layout sha256_magic_def)
  have u: "sha256_UnmarshalBinary d0 (sha256_layout d) = Inr (d1, None)"
    using sha256_UnmarshalBinary_ok [OF t4 l x0] by (simp add: d1_def)
  note r = sha256_import_layout [OF d(2), of d0, folded d1_def]
  have i1: "sha_is224 d1 = sha_is224 d" by (simp add: d1_def d(3))
  from sha256_writes_abs [OF d(2), of f qs] obtain e where
    e: "sha256_calls f d (map Call_Write qs) = Inr e" "sha256_inv e"
       "sha256_abs e = absorb f (sha256_abs d) (concat qs)"
       "sha_len e = sha_len d + of_nat (length (concat qs))"
       "sha_is224 e = sha_is224 d" by blast
  from sha256_writes_abs [OF r(4), of f qs] obtain e1 where
    e1: "sha256_calls f d1 (map Call_Write qs) = Inr e1" "sha256_inv e1"
       "sha256_abs e1 = absorb f (sha256_abs d1) (concat qs)"
       "sha_len e1 = sha_len d1 + of_nat (length (concat qs))"
       "sha_is224 e1 = sha_is224 d1" by blast
  have same: "sha256_abs e1 = sha256_abs e" "sha_len e1 = sha_len e" "sha_is224 e1 = sha_is224 e"
    by (simp_all add: e(3,4,5) e1(3,4,5) r(1,2) i1)
  have "sha256_Sum f e1 inp =
     Inr (e1, inp @ (if sha_is224 e
                    then take 28 (sha256_final f True (sha256_abs e) (sha_len e))
                    else sha256_final f False (sha256_abs e) (sha_len e)))"
    using sha256_Sum_eq [OF e1(2), of f inp] by (simp only: same)
  moreover have "sha_nx d1 = uint (sha_len d1) mod 64" by (simp only: r(2,3))
  ultimately show ?thesis
    using d(1) m u r(2) e(1) e1(1) sha256_Sum_eq [OF e(2), of f inp] by blast
qed

text \<open>
  C4 (checkpoint and restore). For the instance \<open>d\<close> reached by any sequence \<open>cs\<close> of
  calls on a fresh one: \<^verbatim>\<open>MarshalBinary\<close> returns a blob with a \<open>nil\<close> error;
  \<^verbatim>\<open>UnmarshalBinary\<close> of that blob into a fresh instance of the same algorithm and
  variant returns \<open>nil\<close>, with the byte count of \<open>d\<close> and the fill count set to the byte
  count modulo 64; and after the same writes \<open>qs\<close> on both instances, \<^verbatim>\<open>Sum\<close>
  returns the same bytes from both.
\<close>

theorem C4_checkpoint_restore_roundtrip:
  "(\<exists>d b d1 e e1 out. md5_calls f md5_New cs = Inr d
      \<and> md5_MarshalBinary d = Inr (b, None)
      \<and> md5_UnmarshalBinary md5_New b = Inr (d1, None)
      \<and> md5_len d1 = md5_len d \<and> md5_nx d1 = uint (md5_len d1) mod 64
      \<and> md5_calls f d (map Call_Write qs) = Inr e
      \<and> md5_calls f d1 (map Call_Write qs) = Inr e1
      \<and> md5_Sum f e inp = Inr (e, out) \<and> md5_Sum f e1 inp = Inr (e1, out))
   \<and> (\<exists>d b d1 e e1 out. sha256_calls g sha256_New cs = Inr d
      \<and> sha256_MarshalBinary d = Inr (b, None)
      \<and> sha256_UnmarshalBinary sha256_New b = Inr (d1, None)
      \<and> sha_len d1 = sha_len d \<and> sha_nx d1 = uint (sha_len d1) mod 64
      \<and> sha256_calls g d (map Call_Write qs) = Inr e
      \<and> sha256_calls g d1 (map Call_Write qs) = Inr e1
      \<and> sha256_Sum g e inp = Inr (e, out) \<and> sha256_Sum g e1 inp = Inr (e1, out))
   \<and> (\<exists>d b d1 e e1 out. sha256_calls g sha256_New224 cs = Inr d
      \<and> sha256_MarshalBinary d = Inr (b, None)
      \<and> sha256_UnmarshalBinary sha256_New224 b = Inr (d1, None)
      \<and> sha_len d1 = sha_len d \<and> sha_nx d1 = uint (sha_len d1) mod 64
      \<and> sha256_calls g d (map Call_Write qs) = Inr e
      \<and> sha256_calls g d1 (map Call_Write qs) = Inr e1
      \<and> sha256_Sum g e inp = Inr (e, out) \<and> sha256_Sum g e1 inp = Inr (e1, out))"
  using md5_checkpoint_restore [of f cs qs inp]
    sha256_checkpoint_restore [OF sha256_inv_New(1), of g cs qs inp]
    sha256_checkpoint_restore [OF sha256_inv_New(2), of g cs qs inp]
  by (intro conjI)

subsection \<open>Executions on concrete inputs\<close>

lemma md5_padding_at_55: "md5_padding 55 = Inr (0x80 # le_bytes64 440)"
  by (simp add: md5_padding_eq' pad_zeros_def)

lemma md5_padding_at_56:
  "md5_padding 56 = Inr (0x80 # replicate 63 0 @ [0xC0, 0x01, 0, 0, 0, 0, 0, 0])"
  by (simp add: md5_padding_eq' pad_zeros_def le_bytes64_def)

lemma md5_padding_at_0:
  "md5_padding 0 = Inr (0x80 # replicate 55 0 @ [0, 0, 0, 0, 0, 0, 0, 0])"
  by (simp add: md5_padding_def Let_def slice_from_def slice_to_def LittleEndian_PutUint64_def
      put_bytes_def le_bytes64_def)

lemma sha256_padding_at_63:
  "sha256_padding1 63 = Inr (0x80 # replicate 56 0)"
  "sha256_padding2 63 = Inr [0, 0, 0, 0, 0, 0, 0x01, 0xF8]"
  by (simp_all add: sha256_padding1_def sha256_padding2_def Let_def slice_to_def sha256_tmp
      BigEndian_PutUint64_def put_bytes_def be_bytes64_def)

lemma md5_Write_three_bytes:
  "md5_Write (\<lambda>s b. s) md5_New [1, 2, 3]
   = Inr (md5_New\<lparr>md5_x := [1, 2, 3] @ replicate 61 0, md5_nx := 3, md5_len := 3\<rparr>, 3, None)"
  by (simp add: md5_Write_def md5_Write_buffered_def md5_Write_blocks_def md5_Write_rest_def
     go_copy_def md5_New_def md5_Reset_def md5_zero_def md5_BlockSize_def Let_def)

lemma md5_UnmarshalBinary_empty:
  "md5_UnmarshalBinary md5_New []
   = Inr (md5_New, Some (Error ''crypto/md5: invalid hash state identifier''))"
  by (simp add: md5_UnmarshalBinary_def)

end
